theory Spec2Isabelle
  imports Complex_Main
begin

section \<open>Values of the source language\<close>

text \<open>
  The pitch pipeline of \<^verbatim>\<open>src/components/AudioPlayer.jsx\<close> computes on JavaScript
  numbers. Times, frequencies and samples are modelled as reals, so arithmetic is exact
  and the constants \<open>0.1\<close>, \<open>0.15\<close> and \<open>1.5\<close> are the decimal fractions the source
  writes. The three special results a number-valued expression of the source can
  have at a real argument are kept apart: \<^verbatim>\<open>null\<close>, \<^verbatim>\<open>NaN\<close> and an integer.
\<close>

datatype js_num = JNull | JNaN | JInt int

text \<open>\<^verbatim>\<open>a === b\<close> on such values: \<^verbatim>\<open>NaN\<close> is equal to nothing, itself included.\<close>

fun strict_eq :: "js_num \<Rightarrow> js_num \<Rightarrow> bool" where
  "strict_eq JNull JNull = True"
| "strict_eq (JInt a) (JInt b) = (a = b)"
| "strict_eq _ _ = False"

text \<open>
  \<^verbatim>\<open>x % n\<close> takes the sign of the dividend; \<^verbatim>\<open>null\<close> converts to \<open>0\<close>.
\<close>

definition trunc_rem :: "int \<Rightarrow> int \<Rightarrow> int" where
  "trunc_rem m n = (if 0 \<le> m then m mod n else - ((- m) mod n))"

fun js_rem :: "js_num \<Rightarrow> int \<Rightarrow> js_num" where
  "js_rem JNull n = JInt 0"
| "js_rem JNaN n = JNaN"
| "js_rem (JInt m) n = JInt (trunc_rem m n)"

text \<open>\<^verbatim>\<open>Math.floor(x / 12) - 1\<close>.\<close>

fun js_octave :: "js_num \<Rightarrow> js_num" where
  "js_octave JNull = JInt (\<lfloor>(0::real) / 12\<rfloor> - 1)"
| "js_octave JNaN = JNaN"
| "js_octave (JInt m) = JInt (\<lfloor>real_of_int m / 12\<rfloor> - 1)"

text \<open>\<^verbatim>\<open>xs[k]\<close>: \<open>None\<close> stands for \<^verbatim>\<open>undefined\<close>.\<close>

fun js_index :: "'a list \<Rightarrow> js_num \<Rightarrow> 'a option" where
  "js_index xs (JInt i) = (if 0 \<le> i \<and> nat i < length xs then Some (xs ! nat i) else None)"
| "js_index xs _ = None"

text \<open>\<^verbatim>\<open>xs.indexOf(x)\<close>: the first position of \<open>x\<close>, or \<open>-1\<close>.\<close>

fun indexOf :: "'a list \<Rightarrow> 'a \<Rightarrow> int" where
  "indexOf [] x = - 1"
| "indexOf (y # ys) x =
     (if y = x then 0 else (let r = indexOf ys x in if r = - 1 then - 1 else r + 1))"

text \<open>Decimal text of an integer, as a template string prints it.\<close>

definition digit_char :: "nat \<Rightarrow> char" where
  "digit_char d = ''0123456789'' ! d"

fun show_nat :: "nat \<Rightarrow> string" where
  "show_nat n = (if n < 10 then [digit_char n] else show_nat (n div 10) @ [digit_char (n mod 10)])"

definition show_int :: "int \<Rightarrow> string" where
  "show_int i = (if i < 0 then CHR ''-'' # show_nat (nat (- i)) else show_nat (nat i))"

fun str_of_num :: "js_num \<Rightarrow> string" where
  "str_of_num JNull = ''null''"
| "str_of_num JNaN = ''NaN''"
| "str_of_num (JInt i) = show_int i"

fun str_of_name :: "string option \<Rightarrow> string" where
  "str_of_name None = ''undefined''"
| "str_of_name (Some s) = s"

section \<open>Note helpers\<close>

definition NOTES :: "string list" where
  "NOTES = [''C'', ''C#'', ''D'', ''D#'', ''E'', ''F'', ''F#'', ''G'', ''G#'', ''A'', ''A#'', ''B'']"

definition SARGAM_MAPPING :: "string list" where
  "SARGAM_MAPPING =
     [''Sa'', ''re'', ''Re'', ''ga'', ''Ga'', ''Ma'', ''MA'', ''Pa'', ''dha'', ''Dha'', ''ni'', ''Ni'']"

text \<open>
  \<^verbatim>\<open>getMidi\<close>: a falsy frequency gives \<^verbatim>\<open>null\<close>; \<^verbatim>\<open>Math.log2\<close> of a negative
  number is \<^verbatim>\<open>NaN\<close>, which \<^verbatim>\<open>Math.round\<close> keeps; \<^verbatim>\<open>Math.round\<close> rounds a half
  upwards, as \<^const>\<open>round\<close> does.
\<close>

definition getMidi :: "real \<Rightarrow> js_num" where
  "getMidi freq =
     (if freq = 0 then JNull
      else if freq < 0 then JNaN
      else JInt (round (69 + 12 * log 2 (freq / 440))))"

section \<open>Segments and stable note events\<close>

record span =
  startTime :: real
  endTime :: real

record segment = span +
  freq :: real

record event = span +
  avgFreq :: real
  midi :: js_num
  label :: string
  fullNote :: string
  displayLabel :: string

text \<open>The two properties of the component that the aggregation reads.\<close>

record props =
  showSargam :: bool
  rootKey :: "string option"

text \<open>A string is truthy unless it is missing or empty.\<close>

definition truthy :: "string option \<Rightarrow> bool" where
  "truthy k = (case k of None \<Rightarrow> False | Some s \<Rightarrow> s \<noteq> [])"

subsection \<open>Closing a run\<close>

text \<open>
  \<^verbatim>\<open>processRun\<close> pushes at most one event onto \<^verbatim>\<open>events\<close>; the list is passed in
  and returned. Its block that computes the label is \<open>sargamLabel\<close>, from the MIDI number
  and the full note name; the interval \<open>(a - rootIndex + 12) % 12\<close> is computed with the
  source's remainder, and lies between 0 and 11, inside \<^verbatim>\<open>SARGAM_MAPPING\<close>.
\<close>

definition sargamLabel :: "props \<Rightarrow> js_num \<Rightarrow> string \<Rightarrow> string" where
  "sargamLabel p m full =
     (if showSargam p \<and> truthy (rootKey p) then
        (let noteOnly = js_index NOTES (js_rem m 12);
             rootIndex = indexOf NOTES (the (rootKey p))
         in if rootIndex \<noteq> - 1 then
              (let interval =
                 trunc_rem ((case noteOnly of None \<Rightarrow> - 1 | Some n \<Rightarrow> indexOf NOTES n)
                            - rootIndex + 12) 12
               in SARGAM_MAPPING ! nat interval)
            else full)
      else full)"

definition processRun :: "props \<Rightarrow> event list \<Rightarrow> segment list \<Rightarrow> event list" where
  "processRun p events run =
     (if length run = 0 then events
      else
        (let startT = startTime (run ! 0);
             endT = endTime (run ! (length run - 1));
             duration = endT - startT
         in if duration > 0.15 then
              (let avg = foldl (\<lambda>sum s. sum + freq s) 0 run / real (length run);
                   m = getMidi avg;
                   noteName = js_index NOTES (js_rem m 12);
                   octave = js_octave m;
                   full = str_of_name noteName @ str_of_num octave;
                   lbl = sargamLabel p m full
               in events @
                  [\<lparr>startTime = startT, endTime = endT, avgFreq = avg, midi = m,
                    label = lbl, fullNote = full, displayLabel = lbl\<rparr>])
            else events))"

subsection \<open>The aggregation loop\<close>

text \<open>
  The loop of \<^verbatim>\<open>stableNotes\<close> over \<^verbatim>\<open>pitchSegments\<close>, with its two variables
  \<^verbatim>\<open>events\<close> and \<^verbatim>\<open>currentRun\<close> as arguments.
\<close>

fun stableNotes_loop ::
  "props \<Rightarrow> event list \<Rightarrow> segment list \<Rightarrow> segment list \<Rightarrow> event list \<times> segment list" where
  "stableNotes_loop p events currentRun [] = (events, currentRun)"
| "stableNotes_loop p events currentRun (seg # rest) =
     (if length currentRun > 0 then
        (let prev = currentRun ! (length currentRun - 1);
             prevMidi = getMidi (freq prev);
             currMidi = getMidi (freq seg)
         in if strict_eq prevMidi currMidi \<and> (startTime seg - endTime prev) < 0.1
            then stableNotes_loop p events (currentRun @ [seg]) rest
            else stableNotes_loop p (processRun p events currentRun) [seg] rest)
      else stableNotes_loop p events [seg] rest)"

definition stableNotes :: "props \<Rightarrow> segment list \<Rightarrow> event list" where
  "stableNotes p pitchSegments =
     (if length pitchSegments = 0 then []
      else (case stableNotes_loop p [] [] pitchSegments of
              (events, currentRun) \<Rightarrow> processRun p events currentRun))"

text \<open>\<^verbatim>\<open>checkPitch\<close>: the first event whose closed interval holds the playback time.\<close>

definition checkPitch :: "event list \<Rightarrow> real \<Rightarrow> event option" where
  "checkPitch evs t = find (\<lambda>e. t \<ge> startTime e \<and> t \<le> endTime e) evs"

section \<open>From a decoded buffer to pitch segments\<close>

text \<open>
  The decoded buffer: its sample rate and its first channel. The estimator is the
  \<^verbatim>\<open>YIN\<close> factory of the \<^verbatim>\<open>pitchfinder\<close> package, which is not part of the
  repository: it is a parameter, a function from its options to a detector that maps a
  window of samples to a frequency or to \<^verbatim>\<open>null\<close> (\<open>None\<close>). The frame period is a
  quotient by the sample rate; at a sample rate of \<open>0\<close> the source computes with
  \<^verbatim>\<open>Infinity\<close>, which the reals do not have, so every statement about times is made
  for a positive sample rate.
\<close>

record audio_buffer =
  sampleRate :: real
  channelData :: "real list"

record yin_options =
  yin_sampleRate :: real
  yin_threshold :: "real option"
  yin_probabilityThreshold :: "real option"

type_synonym detector = "real list \<Rightarrow> real option"

text \<open>\<^verbatim>\<open>!freq\<close>: a missing estimate or the number zero.\<close>

definition falsy :: "real option \<Rightarrow> bool" where
  "falsy f = (case f of None \<Rightarrow> True | Some x \<Rightarrow> x = 0)"

subsection \<open>File analysis\<close>

text \<open>
  The first loop of \<^verbatim>\<open>processBufferToSegments\<close>: one estimator call for each block
  of \<open>bufferSize\<close> samples; \<^verbatim>\<open>slice(i, i + bufferSize)\<close> is \<open>take bufferSize (drop i _)\<close>.
\<close>

definition bufferSize :: nat where
  "bufferSize = 2048"

function pitches_loop :: "detector \<Rightarrow> real list \<Rightarrow> nat \<Rightarrow> real option list" where
  "pitches_loop detectPitch data i =
     (if i < length data then
        detectPitch (take bufferSize (drop i data)) # pitches_loop detectPitch data (i + bufferSize)
      else [])"
  by pat_completeness auto
termination
  by (relation "measure (\<lambda>(d, data, i). length data - i)") (auto simp: bufferSize_def)

text \<open>The second loop: the noise gate, with the frame index \<open>i\<close>.\<close>

fun segments_loop :: "real \<Rightarrow> nat \<Rightarrow> real option list \<Rightarrow> segment list" where
  "segments_loop timePerFrame i [] = []"
| "segments_loop timePerFrame i (f # pitches) =
     (if falsy f \<or> the f < 60 \<or> the f > 1100 then segments_loop timePerFrame (i + 1) pitches
      else \<lparr>startTime = real i * timePerFrame, endTime = (real i + 1) * timePerFrame,
            freq = the f\<rparr> # segments_loop timePerFrame (i + 1) pitches)"

definition processBufferToSegments ::
  "(yin_options \<Rightarrow> detector) \<Rightarrow> audio_buffer \<Rightarrow> real option list \<times> segment list" where
  "processBufferToSegments YIN buffer =
     (let detectPitch = YIN \<lparr>yin_sampleRate = sampleRate buffer, yin_threshold = None,
                              yin_probabilityThreshold = None\<rparr>;
          data = channelData buffer;
          pitches = pitches_loop detectPitch data 0;
          timePerFrame = real bufferSize / sampleRate buffer;
          segments = segments_loop timePerFrame 0 pitches
      in (pitches, segments))"

text \<open>
  \<^verbatim>\<open>analyzePitch\<close> stores the segments as \<^verbatim>\<open>pitchSegments\<close>, from which
  \<^verbatim>\<open>stableNotes\<close> is recomputed.
\<close>

definition analyzePitch_stableNotes ::
  "(yin_options \<Rightarrow> detector) \<Rightarrow> props \<Rightarrow> audio_buffer \<Rightarrow> event list" where
  "analyzePitch_stableNotes YIN p buffer = stableNotes p (snd (processBufferToSegments YIN buffer))"

subsection \<open>Analysis of a recording\<close>

text \<open>Step 1 of \<^verbatim>\<open>analyzeUserAudio\<close>: peak normalisation of the samples.\<close>

definition normalizeSamples :: "real list \<Rightarrow> real list" where
  "normalizeSamples rawData =
     (let maxAmp = foldl (\<lambda>m x. if \<bar>x\<bar> > m then \<bar>x\<bar> else m) 0 rawData
      in if maxAmp > 0.001 then (let gain = 0.9 / maxAmp in map (\<lambda>x. x * gain) rawData)
         else rawData)"

text \<open>
  Step 2: overlapping windows; a frame is its time and the estimate. Times are exact here:
  in the code's doubles \<open>time + timePerHop\<close> can miss the next frame's \<open>time\<close> by one
  unit in the last place, so nothing is derived below from consecutive frames of a
  recording touching each other.
\<close>

definition windowSize :: nat where
  "windowSize = 2048"

definition hopSize :: nat where
  "hopSize = 512"

function frames_loop :: "detector \<Rightarrow> real \<Rightarrow> real list \<Rightarrow> nat \<Rightarrow> (real \<times> real option) list" where
  "frames_loop detectPitch sr data i =
     (if i + windowSize \<le> length data then
        (real i / sr, detectPitch (take windowSize (drop i data)))
          # frames_loop detectPitch sr data (i + hopSize)
      else [])"
  by pat_completeness auto
termination
  by (relation "measure (\<lambda>(d, sr, data, i). Suc (length data) - (i + windowSize))")
    (auto simp: hopSize_def)

text \<open>Step 3: the raw segments.\<close>

fun rawSegments_loop :: "real \<Rightarrow> (real \<times> real option) list \<Rightarrow> segment list" where
  "rawSegments_loop timePerHop [] = []"
| "rawSegments_loop timePerHop ((t, f) # pitches) =
     (if falsy f \<or> the f < 50 \<or> the f > 1200 then rawSegments_loop timePerHop pitches
      else \<lparr>startTime = t, endTime = t + timePerHop, freq = the f\<rparr>
             # rawSegments_loop timePerHop pitches)"

text \<open>Step 4: the median of three, read from the raw segments.\<close>

definition medianFilter :: "segment list \<Rightarrow> segment list" where
  "medianFilter rawSegments =
     map (\<lambda>i.
        (let prev = (if i > 0 then freq (rawSegments ! (i - 1)) else freq (rawSegments ! i));
             curr = freq (rawSegments ! i);
             next = (if i < length rawSegments - 1 then freq (rawSegments ! (i + 1)) else curr);
             sorted = sort [prev, curr, next]
         in (rawSegments ! i)\<lparr>freq := sorted ! 1\<rparr>))
       [0..<length rawSegments]"

text \<open>Step 5: the synthetic segments between two neighbours, and the whole pass.\<close>

definition fillBetween :: "real \<Rightarrow> segment \<Rightarrow> segment \<Rightarrow> segment list" where
  "fillBetween timePerHop cur nxt =
     (let gap = startTime nxt - endTime cur
      in if gap > 0 \<and> gap < 1.5 then
           (let steps = max 1 (round (gap / timePerHop))
            in map (\<lambda>s.
                 (let t = real_of_int s / (real_of_int steps + 1)
                  in \<lparr>startTime = endTime cur + (real_of_int s - 1) * timePerHop,
                      endTime = endTime cur + real_of_int s * timePerHop,
                      freq = freq cur * (1 - t) + freq nxt * t\<rparr>))
               [1..steps])
         else [])"

definition fillGaps :: "real \<Rightarrow> segment list \<Rightarrow> segment list" where
  "fillGaps timePerHop smoothedSegments =
     concat (map (\<lambda>i.
        smoothedSegments ! i #
          (if i < length smoothedSegments - 1
           then fillBetween timePerHop (smoothedSegments ! i) (smoothedSegments ! (i + 1))
           else []))
       [0..<length smoothedSegments])"

definition userRawSegments :: "(yin_options \<Rightarrow> detector) \<Rightarrow> audio_buffer \<Rightarrow> segment list" where
  "userRawSegments YIN buffer =
     (let rawData = normalizeSamples (channelData buffer);
          detectPitch = YIN \<lparr>yin_sampleRate = sampleRate buffer, yin_threshold = Some 0.15,
                              yin_probabilityThreshold = Some 0.05\<rparr>;
          timePerHop = real hopSize / sampleRate buffer;
          pitches = frames_loop detectPitch (sampleRate buffer) rawData 0
      in rawSegments_loop timePerHop pitches)"

definition analyzeUserAudio :: "(yin_options \<Rightarrow> detector) \<Rightarrow> audio_buffer \<Rightarrow> segment list" where
  "analyzeUserAudio YIN buffer =
     (let rawSegments = userRawSegments YIN buffer;
          timePerHop = real hopSize / sampleRate buffer;
          smoothedSegments = medianFilter rawSegments;
          filledSegments = fillGaps timePerHop smoothedSegments
      in filledSegments)"

section \<open>The mean in double precision\<close>




section \<open>Notions used to state the properties\<close>

text \<open>The continuity test of the aggregation loop, between the run's last segment and the next.\<close>

definition continues :: "segment \<Rightarrow> segment \<Rightarrow> bool" where
  "continues prev seg =
     (strict_eq (getMidi (freq prev)) (getMidi (freq seg)) \<and> startTime seg - endTime prev < 0.1)"

text \<open>
  The runs as the specification describes them: the segment list cut wherever the
  continuity test fails, the open run being the first argument.
\<close>

fun spec_runs_from :: "segment list \<Rightarrow> segment list \<Rightarrow> segment list list" where
  "spec_runs_from run [] = [run]"
| "spec_runs_from run (seg # rest) =
     (if continues (last run) seg then spec_runs_from (run @ [seg]) rest
      else run # spec_runs_from [seg] rest)"

definition spec_runs :: "segment list \<Rightarrow> segment list list" where
  "spec_runs segs = (case segs of [] \<Rightarrow> [] | seg # rest \<Rightarrow> spec_runs_from [seg] rest)"

text \<open>The median of three numbers, as the specification of the smoother uses the word.\<close>

definition spec_median :: "real \<Rightarrow> real \<Rightarrow> real \<Rightarrow> real" where
  "spec_median a b c = max (min a b) (min (max a b) c)"

text \<open>The events that a playback time lies in, both ends included.\<close>

definition active_at :: "real \<Rightarrow> event \<Rightarrow> bool" where
  "active_at t e = (startTime e \<le> t \<and> t \<le> endTime e)"

text \<open>
  A stand-in for the estimator on concrete inputs: it reads the first sample of the
  window, answering no pitch for \<open>0\<close>, 440 Hz below \<open>1\<close> and 880 Hz from \<open>1\<close> on.
\<close>

definition demo_YIN :: "yin_options \<Rightarrow> detector" where
  "demo_YIN opts chunk =
     (if chunk = [] \<or> hd chunk = 0 then None
      else if hd chunk < 1 then Some 440 else Some 880)"

text \<open>A segment written as its three fields, for concrete inputs.\<close>

definition mk_segment :: "real \<Rightarrow> real \<Rightarrow> real \<Rightarrow> segment" where
  "mk_segment s e f = \<lparr>startTime = s, endTime = e, freq = f\<rparr>"



section \<open>The MIDI number of a frequency\<close>

text \<open>
  For a positive frequency the MIDI number is an integer, monotone in the frequency. It is
  \<open>m\<close> exactly when \<open>(f / 440) ^ 24\<close> lies between \<open>2 ^ (2 * m - 139)\<close> and
  \<open>2 ^ (2 * m - 137)\<close>, which decides it for a rational frequency.
\<close>

lemma getMidi_pos: "0 < f \<Longrightarrow> getMidi f = JInt (round (69 + 12 * log 2 (f / 440)))"
  by (simp add: getMidi_def)

lemma round_eq_iff: "round (x::real) = m \<longleftrightarrow> of_int m - 1/2 \<le> x \<and> x < of_int m + 1/2"
  by (auto simp: round_def floor_eq_iff)

lemma log24:
  assumes "0 < (x::real)"
  shows "24 * log 2 x = log 2 (x ^ 24)"
  using assms by (simp add: log_nat_power)

lemma getMidi_eqI:
  assumes f: "0 < f"
    and m: "2 * m - 139 = int a - int b"
    and lo: "2 ^ a * 440 ^ 24 \<le> 2 ^ b * f ^ 24"
    and hi: "2 ^ b * f ^ 24 < 4 * 2 ^ a * 440 ^ 24"
  shows "getMidi f = JInt m"
proof -
  let ?x = "f / 440"
  have x: "0 < ?x" using f by simp
  have x24: "0 < ?x ^ 24" using x by simp
  have p: "?x ^ 24 = f ^ 24 / 440 ^ 24" by (simp add: power_divide)
  have lo': "2 powr (real_of_int (int a - int b)) \<le> ?x ^ 24"
  proof -
    have "2 powr (real_of_int (int a - int b)) = (2::real) ^ a / 2 ^ b"
      by (simp add: powr_diff powr_realpow)
    also have "\<dots> \<le> f ^ 24 / 440 ^ 24"
      using lo by (simp add: field_simps)
    finally show ?thesis using p by simp
  qed
  have hi': "?x ^ 24 < 2 powr (real_of_int (int a - int b + 2))"
  proof -
    have "2 powr (real_of_int (int a - int b + 2)) = 4 * (2::real) ^ a / 2 ^ b"
      by (simp add: powr_diff powr_add powr_realpow)
    moreover have "f ^ 24 / 440 ^ 24 < 4 * (2::real) ^ a / 2 ^ b"
      using hi by (simp add: field_simps)
    ultimately show ?thesis using p by simp
  qed
  have l1: "real_of_int (int a - int b) \<le> 24 * log 2 ?x"
    using lo' x24 by (simp add: log24 [OF x] le_log_iff)
  have l2: "24 * log 2 ?x < real_of_int (int a - int b + 2)"
    using hi' x24 by (simp add: log24 [OF x] log_less_iff)
  have "real_of_int (2 * m - 139) \<le> 24 * log 2 ?x" using l1 m by simp
  moreover have "24 * log 2 ?x < real_of_int (2 * m - 137)" using l2 m by simp
  ultimately have "round (69 + 12 * log 2 ?x) = m"
    by (simp add: round_eq_iff)
  then show ?thesis using f by (simp add: getMidi_pos)
qed

lemma getMidi_440: "getMidi 440 = JInt 69"
  by (rule getMidi_eqI [where a = 0 and b = 1]) simp_all

lemma getMidi_880: "getMidi 880 = JInt 81"
  by (rule getMidi_eqI [where a = 23 and b = 0]) simp_all

lemma getMidi_262: "getMidi 262 = JInt 60"
  by (rule getMidi_eqI [where a = 0 and b = 19]) simp_all


section \<open>Runs and events of the aggregation\<close>

text \<open>The recursive equations of the loops are unfolded by hand.\<close>

declare show_nat.simps [simp del]
declare pitches_loop.simps [simp del]
declare frames_loop.simps [simp del]

lemma processRun_append: "processRun p evs run = evs @ processRun p [] run"
  by (simp add: processRun_def Let_def)

lemma foldl_freq: "foldl (\<lambda>sum s. sum + freq s) a run = a + sum_list (map freq run)"
  by (induction run arbitrary: a) simp_all

lemma processRun_emit:
  assumes "run \<noteq> []" and "endTime (last run) - startTime (hd run) > 0.15"
  shows "\<exists>e. processRun p evs run = evs @ [e]
           \<and> startTime e = startTime (hd run) \<and> endTime e = endTime (last run)
           \<and> avgFreq e = sum_list (map freq run) / real (length run)
           \<and> midi e = getMidi (avgFreq e)
           \<and> fullNote e = str_of_name (js_index NOTES (js_rem (midi e) 12)) @ str_of_num (js_octave (midi e))
           \<and> label e = sargamLabel p (midi e) (fullNote e)
           \<and> displayLabel e = label e"
  using assms by (simp add: processRun_def Let_def hd_conv_nth last_conv_nth foldl_freq)

lemma processRun_drop:
  assumes "run \<noteq> []" and "endTime (last run) - startTime (hd run) \<le> 0.15"
  shows "processRun p evs run = evs"
  using assms by (simp add: processRun_def Let_def hd_conv_nth last_conv_nth)

lemma processRun_event:
  assumes "e \<in> set (processRun p [] run)"
  shows "run \<noteq> [] \<and> endTime (last run) - startTime (hd run) > 0.15 \<and> processRun p [] run = [e]"
proof -
  have ne: "run \<noteq> []" using assms by (auto simp: processRun_def)
  have d: "endTime (last run) - startTime (hd run) > 0.15"
  proof (rule ccontr)
    assume "\<not> ?thesis"
    then have "processRun p [] run = []" using ne processRun_drop [of run p "[]"] by simp
    then show False using assms by simp
  qed
  obtain e' where "processRun p [] run = [] @ [e']"
    using processRun_emit [OF ne d, of p "[]"] by blast
  then show ?thesis using assms ne d by simp
qed

lemma loop_step:
  "run \<noteq> [] \<Longrightarrow>
   stableNotes_loop p evs run (seg # rest) =
     (if continues (last run) seg then stableNotes_loop p evs (run @ [seg]) rest
      else stableNotes_loop p (processRun p evs run) [seg] rest)"
  by (simp add: continues_def Let_def last_conv_nth)

lemma loop_runs_from:
  "run \<noteq> [] \<Longrightarrow>
   (case stableNotes_loop p evs run segs of (ev', run') \<Rightarrow> processRun p ev' run') =
   evs @ concat (map (processRun p []) (spec_runs_from run segs))"
proof (induction segs arbitrary: evs run)
  case Nil
  then show ?case by (simp add: processRun_append [of p evs])
next
  case (Cons seg rest)
  show ?case
  proof (cases "continues (last run) seg")
    case True
    then show ?thesis using Cons.prems Cons.IH [of "run @ [seg]" evs]
      by (simp add: loop_step del: stableNotes_loop.simps)
  next
    case False
    then show ?thesis using Cons.prems Cons.IH [of "[seg]" "processRun p evs run"]
      processRun_append [of p evs run]
      by (simp add: loop_step del: stableNotes_loop.simps)
  qed
qed

lemma stableNotes_spec_runs:
  "stableNotes p segs = concat (map (processRun p []) (spec_runs segs))"
proof (cases segs)
  case Nil
  then show ?thesis by (simp add: stableNotes_def spec_runs_def)
next
  case (Cons seg rest)
  then show ?thesis using loop_runs_from [of "[seg]" p "[]" rest]
    by (simp add: stableNotes_def spec_runs_def)
qed

lemma concat_spec_runs_from: "concat (spec_runs_from run segs) = run @ segs"
  by (induction segs arbitrary: run) auto

lemma concat_spec_runs: "concat (spec_runs segs) = segs"
  by (cases segs) (simp_all add: spec_runs_def concat_spec_runs_from)

lemma spec_runs_from_nonempty: "run \<noteq> [] \<Longrightarrow> r \<in> set (spec_runs_from run segs) \<Longrightarrow> r \<noteq> []"
  by (induction segs arbitrary: run) (auto split: if_splits)

lemma spec_runs_from_succ:
  "successively continues run \<Longrightarrow> run \<noteq> [] \<Longrightarrow> r \<in> set (spec_runs_from run segs) \<Longrightarrow> successively continues r"
proof (induction segs arbitrary: run)
  case Nil
  then show ?case by simp
next
  case (Cons seg rest)
  show ?case
  proof (cases "continues (last run) seg")
    case True
    have "successively continues (run @ [seg])"
      using Cons.prems(1,2) True by (simp add: successively_append_iff)
    then show ?thesis using Cons.IH [of "run @ [seg]"] Cons.prems(3) True by simp
  next
    case False
    then have "r = run \<or> r \<in> set (spec_runs_from [seg] rest)"
      using Cons.prems(3) by simp
    then show ?thesis using Cons.IH [of "[seg]"] Cons.prems(1) by auto
  qed
qed

lemma spec_runs_run:
  assumes "r \<in> set (spec_runs segs)"
  shows "r \<noteq> [] \<and> successively continues r"
proof (cases segs)
  case Nil
  then show ?thesis using assms by (simp add: spec_runs_def)
next
  case (Cons seg rest)
  then have "r \<in> set (spec_runs_from [seg] rest)" using assms by (simp add: spec_runs_def)
  then show ?thesis
    using spec_runs_from_nonempty [of "[seg]" r rest] spec_runs_from_succ [of "[seg]" r rest]
    by simp
qed

lemma hd_spec_runs_from: "run \<noteq> [] \<Longrightarrow> hd (hd (spec_runs_from run segs)) = hd run"
  by (induction segs arbitrary: run) auto

lemma spec_runs_from_ne: "spec_runs_from run segs \<noteq> []"
  by (induction segs arbitrary: run) auto

lemma spec_runs_from_maximal:
  "run \<noteq> [] \<Longrightarrow> successively (\<lambda>r1 r2. \<not> continues (last r1) (hd r2)) (spec_runs_from run segs)"
proof (induction segs arbitrary: run)
  case Nil
  then show ?case by simp
next
  case (Cons seg rest)
  show ?case
  proof (cases "continues (last run) seg")
    case True
    then show ?thesis using Cons.IH [of "run @ [seg]"] by simp
  next
    case False
    have "successively (\<lambda>r1 r2. \<not> continues (last r1) (hd r2)) (spec_runs_from [seg] rest)"
      using Cons.IH [of "[seg]"] by simp
    moreover have "hd (hd (spec_runs_from [seg] rest)) = seg"
      using hd_spec_runs_from [of "[seg]" rest] by simp
    ultimately show ?thesis using False spec_runs_from_ne [of "[seg]" rest]
      by (cases "spec_runs_from [seg] rest") (auto simp: successively_Cons)
  qed
qed

lemma spec_runs_maximal:
  "successively (\<lambda>r1 r2. \<not> continues (last r1) (hd r2)) (spec_runs segs)"
  by (cases segs) (simp_all add: spec_runs_def spec_runs_from_maximal)

lemma continues_pos:
  assumes "0 < freq a" and "0 < freq b"
  shows "continues a b \<longleftrightarrow>
           round (69 + 12 * log 2 (freq a / 440)) = round (69 + 12 * log 2 (freq b / 440))
           \<and> startTime b - endTime a < 0.1"
  using assms by (simp add: continues_def getMidi_pos)

lemma stableNotes_event_run:
  assumes "e \<in> set (stableNotes p segs)"
  shows "\<exists>run \<in> set (spec_runs segs). processRun p [] run = [e]"
proof -
  from assms obtain run where "run \<in> set (spec_runs segs)" and "e \<in> set (processRun p [] run)"
    by (auto simp: stableNotes_spec_runs)
  then show ?thesis using processRun_event [of e p run] by blast
qed

text \<open>
  Claim C1 (run continuity). The events of \<^const>\<open>stableNotes\<close> are those of closing, in
  order, the runs of \<^const>\<open>spec_runs\<close>. These runs cut the segment list into consecutive
  non-empty pieces; inside a run every segment continues its predecessor (same MIDI number
  and a gap below 0.1 s), and the first segment of a run never continues the last segment
  of the run before it. One step of the loop appends the incoming segment to a non-empty
  run exactly when it continues the run's last segment, and otherwise closes the run and
  starts a new one with the segment; for positive frequencies the MIDI number compared is
  \<open>round (69 + 12 * log 2 (freq / 440))\<close>.
\<close>
theorem run_continuity:
  "stableNotes p segs = concat (map (processRun p []) (spec_runs segs))
   \<and> concat (spec_runs segs) = segs
   \<and> (\<forall>run \<in> set (spec_runs segs). run \<noteq> [] \<and> successively continues run)
   \<and> successively (\<lambda>r1 r2. \<not> continues (last r1) (hd r2)) (spec_runs segs)
   \<and> (\<forall>evs run seg rest. run \<noteq> [] \<longrightarrow>
         stableNotes_loop p evs run (seg # rest) =
           (if continues (last run) seg then stableNotes_loop p evs (run @ [seg]) rest
            else stableNotes_loop p (processRun p evs run) [seg] rest))
   \<and> (\<forall>a b. 0 < freq a \<and> 0 < freq b \<longrightarrow>
         (continues a b \<longleftrightarrow>
            round (69 + 12 * log 2 (freq a / 440)) = round (69 + 12 * log 2 (freq b / 440))
            \<and> startTime b - endTime a < 0.1))"
  using stableNotes_spec_runs [of p segs] concat_spec_runs [of segs] spec_runs_run [of _ segs]
    spec_runs_maximal [of segs] loop_step [of _ p] continues_pos
  by blast

text \<open>
  Claim C2 (minimum duration). Every event of \<^const>\<open>stableNotes\<close> lasts more than
  0.15 s, and it starts with the first segment and ends with the last segment of one of the
  runs; closing a run whose span is at most 0.15 s adds no event, and closing a longer run
  adds exactly one event with the run's start and end.
\<close>
theorem minimum_duration:
  "(\<forall>e \<in> set (stableNotes p segs).
      endTime e - startTime e > 0.15
      \<and> (\<exists>run \<in> set (spec_runs segs).
            startTime e = startTime (hd run) \<and> endTime e = endTime (last run)))
   \<and> (\<forall>run evs. run \<noteq> [] \<and> endTime (last run) - startTime (hd run) \<le> 0.15 \<longrightarrow>
         processRun p evs run = evs)
   \<and> (\<forall>run evs. run \<noteq> [] \<and> endTime (last run) - startTime (hd run) > 0.15 \<longrightarrow>
         (\<exists>e. processRun p evs run = evs @ [e]
            \<and> startTime e = startTime (hd run) \<and> endTime e = endTime (last run)))"
proof (intro conjI ballI allI impI)
  fix e assume e: "e \<in> set (stableNotes p segs)"
  then obtain run where r: "run \<in> set (spec_runs segs)" and pr: "processRun p [] run = [e]"
    using stableNotes_event_run by blast
  then have "e \<in> set (processRun p [] run)" by simp
  then have ne: "run \<noteq> []" and d: "endTime (last run) - startTime (hd run) > 0.15"
    using processRun_event [of e p run] by simp_all
  obtain e' where e': "processRun p [] run = [] @ [e']"
    "startTime e' = startTime (hd run)" "endTime e' = endTime (last run)"
    using processRun_emit [OF ne d, of p "[]"] by blast
  then have ee: "e' = e" using pr by simp
  show "endTime e - startTime e > 0.15" using e' d ee by simp
  show "\<exists>run \<in> set (spec_runs segs).
          startTime e = startTime (hd run) \<and> endTime e = endTime (last run)"
    using r e' ee by blast
next
  fix run :: "segment list" and evs :: "event list"
  assume "run \<noteq> [] \<and> endTime (last run) - startTime (hd run) \<le> 0.15"
  then show "processRun p evs run = evs" using processRun_drop by blast
next
  fix run :: "segment list" and evs :: "event list"
  assume "run \<noteq> [] \<and> endTime (last run) - startTime (hd run) > 0.15"
  then show "\<exists>e. processRun p evs run = evs @ [e]
            \<and> startTime e = startTime (hd run) \<and> endTime e = endTime (last run)"
    using processRun_emit [of run p evs] by blast
qed

lemma spec_runs_demo:
  "spec_runs [mk_segment 0 0.1 440, mk_segment 0.1 0.2 440, mk_segment 0.2 0.3 880, mk_segment 0.45 0.55 880] =
     [[mk_segment 0 0.1 440, mk_segment 0.1 0.2 440], [mk_segment 0.2 0.3 880], [mk_segment 0.45 0.55 880]]"
  by (simp add: spec_runs_def continues_def mk_segment_def getMidi_440 getMidi_880)

text \<open>A list of four segments with three runs.\<close>

theorem run_continuity_witness:
  "stableNotes \<lparr>showSargam = True, rootKey = Some ''C''\<rparr>
     [mk_segment 0 0.1 440, mk_segment 0.1 0.2 440, mk_segment 0.2 0.3 880, mk_segment 0.45 0.55 880] =
   processRun \<lparr>showSargam = True, rootKey = Some ''C''\<rparr> [] [mk_segment 0 0.1 440, mk_segment 0.1 0.2 440]
   @ processRun \<lparr>showSargam = True, rootKey = Some ''C''\<rparr> [] [mk_segment 0.2 0.3 880]
   @ processRun \<lparr>showSargam = True, rootKey = Some ''C''\<rparr> [] [mk_segment 0.45 0.55 880]
   \<and> continues (mk_segment 0 0.1 440) (mk_segment 0.1 0.2 440)
   \<and> \<not> continues (mk_segment 0.1 0.2 440) (mk_segment 0.2 0.3 880)
   \<and> \<not> continues (mk_segment 0.2 0.3 880) (mk_segment 0.45 0.55 880)"
proof -
  note rc = run_continuity [of "\<lparr>showSargam = True, rootKey = Some ''C''\<rparr>"
      "[mk_segment 0 0.1 440, mk_segment 0.1 0.2 440, mk_segment 0.2 0.3 880, mk_segment 0.45 0.55 880]",
      unfolded spec_runs_demo]
  have 1: "stableNotes \<lparr>showSargam = True, rootKey = Some ''C''\<rparr>
     [mk_segment 0 0.1 440, mk_segment 0.1 0.2 440, mk_segment 0.2 0.3 880, mk_segment 0.45 0.55 880] =
   processRun \<lparr>showSargam = True, rootKey = Some ''C''\<rparr> [] [mk_segment 0 0.1 440, mk_segment 0.1 0.2 440]
   @ processRun \<lparr>showSargam = True, rootKey = Some ''C''\<rparr> [] [mk_segment 0.2 0.3 880]
   @ processRun \<lparr>showSargam = True, rootKey = Some ''C''\<rparr> [] [mk_segment 0.45 0.55 880]"
    using rc [THEN conjunct1] by simp
  have 2: "continues (mk_segment 0 0.1 440) (mk_segment 0.1 0.2 440)"
    using rc [THEN conjunct2, THEN conjunct2, THEN conjunct1] by simp
  have 3: "\<not> continues (mk_segment 0.1 0.2 440) (mk_segment 0.2 0.3 880)
           \<and> \<not> continues (mk_segment 0.2 0.3 880) (mk_segment 0.45 0.55 880)"
    using rc [THEN conjunct2, THEN conjunct2, THEN conjunct2, THEN conjunct1] by simp
  show ?thesis using 1 2 3 by blast
qed

lemma processRun_demo:
  "processRun \<lparr>showSargam = True, rootKey = Some ''C''\<rparr> [] [mk_segment 0 0.1 440, mk_segment 0.1 0.2 440] =
     [\<lparr>startTime = 0, endTime = 0.2, avgFreq = 440, midi = JInt 69, label = ''Dha'',
       fullNote = ''A4'', displayLabel = ''Dha''\<rparr>]"
  by (simp add: processRun_def mk_segment_def getMidi_440 NOTES_def SARGAM_MAPPING_def sargamLabel_def
      truthy_def trunc_rem_def show_int_def show_nat.simps digit_char_def Let_def)

lemma stableNotes_demo:
  "stableNotes \<lparr>showSargam = True, rootKey = Some ''C''\<rparr>
     [mk_segment 0 0.1 440, mk_segment 0.1 0.2 440, mk_segment 0.2 0.3 880] =
     [\<lparr>startTime = 0, endTime = 0.2, avgFreq = 440, midi = JInt 69, label = ''Dha'',
       fullNote = ''A4'', displayLabel = ''Dha''\<rparr>]"
proof -
  have "spec_runs [mk_segment 0 0.1 440, mk_segment 0.1 0.2 440, mk_segment 0.2 0.3 880] =
     [[mk_segment 0 0.1 440, mk_segment 0.1 0.2 440], [mk_segment 0.2 0.3 880]]"
    by (simp add: spec_runs_def continues_def mk_segment_def getMidi_440 getMidi_880)
  moreover have "processRun \<lparr>showSargam = True, rootKey = Some ''C''\<rparr> [] [mk_segment 0.2 0.3 880] = []"
    by (simp add: processRun_def mk_segment_def)
  ultimately show ?thesis
    by (simp only: stableNotes_spec_runs list.map concat.simps processRun_demo append_Nil2 append_Nil)
qed

text \<open>Two runs, of which the second is too short.\<close>

theorem minimum_duration_witness:
  "stableNotes \<lparr>showSargam = True, rootKey = Some ''C''\<rparr>
     [mk_segment 0 0.1 440, mk_segment 0.1 0.2 440, mk_segment 0.2 0.3 880] =
     [\<lparr>startTime = 0, endTime = 0.2, avgFreq = 440, midi = JInt 69, label = ''Dha'',
       fullNote = ''A4'', displayLabel = ''Dha''\<rparr>]
   \<and> (0.2::real) - 0 > 0.15
   \<and> processRun \<lparr>showSargam = True, rootKey = Some ''C''\<rparr> [] [mk_segment 0.2 0.3 880] = []"
proof -
  note md = minimum_duration [of "\<lparr>showSargam = True, rootKey = Some ''C''\<rparr>"
      "[mk_segment 0 0.1 440, mk_segment 0.1 0.2 440, mk_segment 0.2 0.3 880]"]
  have 1: "(0.2::real) - 0 > 0.15"
    using md [THEN conjunct1] by (simp add: stableNotes_demo)
  have "[mk_segment 0.2 0.3 880] \<noteq> []
       \<and> endTime (last [mk_segment 0.2 0.3 880]) - startTime (hd [mk_segment 0.2 0.3 880]) \<le> 0.15"
    by (simp add: mk_segment_def)
  then have 2: "processRun \<lparr>showSargam = True, rootKey = Some ''C''\<rparr> [] [mk_segment 0.2 0.3 880] = []"
    using md [THEN conjunct2, THEN conjunct1] by blast
  show ?thesis using 1 2 stableNotes_demo by simp
qed

section \<open>The MIDI number of a run's mean frequency\<close>



lemma sum_list_lower: "\<forall>x \<in> set xs. lo \<le> x \<Longrightarrow> lo * real (length xs) \<le> sum_list xs"
  by (induction xs) (simp_all add: algebra_simps)

lemma sum_list_upper: "\<forall>x \<in> set xs. x \<le> hi \<Longrightarrow> sum_list xs \<le> hi * real (length xs)"
  by (induction xs) (simp_all add: algebra_simps)

lemma mean_lower:
  assumes "xs \<noteq> []" and "\<forall>x \<in> set xs. lo \<le> x"
  shows "lo \<le> sum_list xs / real (length xs)"
  using assms sum_list_lower [of xs lo] by (simp add: pos_le_divide_eq)

lemma mean_upper:
  assumes "xs \<noteq> []" and "\<forall>x \<in> set xs. x \<le> hi"
  shows "sum_list xs / real (length xs) \<le> hi"
  using assms sum_list_upper [of xs hi] by (simp add: pos_divide_le_eq)







subsection \<open>The mean as the code rounds it\<close>



















section \<open>Note names and scale degrees\<close>

lemma midi_gate:
  assumes "50 \<le> f"
  shows "0 \<le> round (69 + 12 * log 2 (f / 440))"
proof -
  have "2 powr (- 4) = (1 / 16 :: real)"
    by (simp add: powr_minus_divide)
  then have "2 powr (- 4) \<le> f / 440" using assms by simp
  then have "- 4 \<le> log 2 (f / 440)" using assms by (simp add: le_log_iff)
  then have "(21::real) \<le> 69 + 12 * log 2 (f / 440)" by simp
  then have "round (21::real) \<le> round (69 + 12 * log 2 (f / 440))" by (rule round_mono)
  then show ?thesis by simp
qed

lemma name_of_midi:
  assumes "0 \<le> m"
  shows "str_of_name (js_index NOTES (js_rem (JInt m) 12)) @ str_of_num (js_octave (JInt m)) =
           NOTES ! nat (m mod 12) @ show_int (m div 12 - 1)"
proof -
  have "nat (m mod 12) < 12" by simp
  moreover have "\<lfloor>real_of_int m / 12\<rfloor> = m div 12"
    using floor_divide_of_int_eq [of m 12, where ?'a = real] by simp
  ultimately show ?thesis using assms by (simp add: trunc_rem_def NOTES_def)
qed

lemma processRun_gated:
  assumes ne: "run \<noteq> []" and d: "endTime (last run) - startTime (hd run) > 0.15"
    and g: "\<forall>s \<in> set run. 50 \<le> freq s"
  shows "\<exists>e m. processRun p evs run = evs @ [e]
           \<and> avgFreq e = sum_list (map freq run) / real (length run)
           \<and> m = round (69 + 12 * log 2 (avgFreq e / 440)) \<and> 0 \<le> m \<and> midi e = JInt m
           \<and> fullNote e = NOTES ! nat (m mod 12) @ show_int (m div 12 - 1)
           \<and> label e = sargamLabel p (JInt m) (fullNote e)"
proof -
  obtain e where e: "processRun p evs run = evs @ [e]"
    "avgFreq e = sum_list (map freq run) / real (length run)"
    "midi e = getMidi (avgFreq e)"
    "fullNote e = str_of_name (js_index NOTES (js_rem (midi e) 12)) @ str_of_num (js_octave (midi e))"
    "label e = sargamLabel p (midi e) (fullNote e)"
    using processRun_emit [OF ne d, of p evs] by blast
  let ?m = "round (69 + 12 * log 2 (avgFreq e / 440))"
  have "50 \<le> avgFreq e"
    using mean_lower [of "map freq run" 50] ne g e(2) by simp
  then have pos: "0 < avgFreq e" and m0: "0 \<le> ?m" using midi_gate by simp_all
  have m: "midi e = JInt ?m" using e(3) pos by (simp add: getMidi_pos)
  have "fullNote e = NOTES ! nat (?m mod 12) @ show_int (?m div 12 - 1)"
    using e(4) name_of_midi [OF m0] by (simp only: m)
  then show ?thesis using e m m0 by auto
qed

lemma segments_loop_gated:
  "s \<in> set (segments_loop tpf i ps) \<Longrightarrow> 60 \<le> freq s \<and> freq s \<le> 1100"
  by (induction ps arbitrary: i) (auto split: if_splits)

lemma spec_runs_subset:
  assumes "run \<in> set (spec_runs segs)"
  shows "set run \<subseteq> set segs"
proof -
  have "set run \<subseteq> set (concat (spec_runs segs))" using assms by auto
  then show ?thesis by (simp only: concat_spec_runs)
qed

lemma file_event_run:
  assumes "e \<in> set (analyzePitch_stableNotes YIN q buffer)"
  shows "\<exists>run \<in> set (spec_runs (snd (processBufferToSegments YIN buffer))).
           run \<noteq> [] \<and> endTime (last run) - startTime (hd run) > 0.15
           \<and> (\<forall>s \<in> set run. 50 \<le> freq s) \<and> processRun q [] run = [e]"
proof -
  let ?segs = "snd (processBufferToSegments YIN buffer)"
  obtain run where r: "run \<in> set (spec_runs ?segs)" and pr: "processRun q [] run = [e]"
    using assms stableNotes_event_run unfolding analyzePitch_stableNotes_def by blast
  have "e \<in> set (processRun q [] run)" using pr by simp
  then have ne: "run \<noteq> []" and d: "endTime (last run) - startTime (hd run) > 0.15"
    using processRun_event [of e q run] by simp_all
  have "\<forall>s \<in> set ?segs. 60 \<le> freq s"
    using segments_loop_gated by (simp add: processBufferToSegments_def Let_def)
  then have "\<forall>s \<in> set run. 50 \<le> freq s"
    using spec_runs_subset [OF r] by fastforce
  then show ?thesis using r ne d pr by blast
qed




lemma indexOf_notin: "x \<notin> set xs \<Longrightarrow> indexOf xs x = - 1"
  by (induction xs) (auto simp: Let_def)

lemma indexOf_mem: "x \<in> set xs \<Longrightarrow> 0 \<le> indexOf xs x"
  by (induction xs) (auto simp: Let_def)

lemma indexOf_nth: "distinct xs \<Longrightarrow> i < length xs \<Longrightarrow> indexOf xs (xs ! i) = int i"
proof (induction xs arbitrary: i)
  case Nil
  then show ?case by simp
next
  case (Cons y ys)
  show ?case
  proof (cases i)
    case 0
    then show ?thesis by simp
  next
    case (Suc j)
    then have j: "j < length ys" using Cons.prems(2) by simp
    then have "ys ! j \<in> set ys" by simp
    then have "y \<noteq> ys ! j" using Cons.prems(1) by auto
    moreover have "indexOf ys (ys ! j) = int j" using Cons.IH [of j] Cons.prems(1) j by simp
    ultimately show ?thesis using Suc by (simp add: Let_def)
  qed
qed

lemma NOTES_distinct: "distinct NOTES" and NOTES_length: "length NOTES = 12"
  by (simp_all add: NOTES_def)

lemma indexOf_range: "- 1 \<le> indexOf xs x \<and> indexOf xs x < int (length xs)"
  by (induction xs) (auto simp: Let_def)

text \<open>The index that \<^const>\<open>sargamLabel\<close> reads is inside the table of twelve labels.\<close>

lemma sargam_interval_in_table:
  assumes "rootIndex = indexOf NOTES k" and "rootIndex \<noteq> - 1"
    and "a = (case noteOnly of None \<Rightarrow> - 1 | Some n \<Rightarrow> indexOf NOTES n)"
  shows "0 \<le> trunc_rem (a - rootIndex + 12) 12
         \<and> nat (trunc_rem (a - rootIndex + 12) 12) < length SARGAM_MAPPING"
proof -
  have r: "0 \<le> rootIndex" "rootIndex < 12"
    using indexOf_range [of NOTES k] assms(1,2) by (simp_all add: NOTES_length)
  have a: "- 1 \<le> a"
    using indexOf_range [of NOTES] assms(3) by (cases noteOnly) simp_all
  have "0 \<le> a - rootIndex + 12" using r a by simp
  then have "trunc_rem (a - rootIndex + 12) 12 = (a - rootIndex + 12) mod 12"
    by (simp add: trunc_rem_def)
  then show ?thesis by (simp add: SARGAM_MAPPING_def)
qed

lemma sargamLabel_in:
  assumes m: "0 \<le> m" and s: "showSargam p" and r: "r < 12" and k: "rootKey p = Some (NOTES ! r)"
  shows "sargamLabel p (JInt m) full = SARGAM_MAPPING ! nat ((m mod 12 - int r + 12) mod 12)"
proof -
  have mem: "NOTES ! r \<in> set NOTES" using r by (simp add: NOTES_length)
  then have "NOTES ! r \<noteq> []" by (auto simp: NOTES_def)
  then have t: "truthy (rootKey p)" using k by (simp add: truthy_def)
  have ri: "indexOf NOTES (NOTES ! r) = int r"
    using indexOf_nth [OF NOTES_distinct] r by (simp add: NOTES_length)
  have pc: "nat (m mod 12) < 12" by simp
  have ni: "js_index NOTES (js_rem (JInt m) 12) = Some (NOTES ! nat (m mod 12))"
    using m pc by (simp add: trunc_rem_def NOTES_length)
  have pi: "indexOf NOTES (NOTES ! nat (m mod 12)) = m mod 12"
    using indexOf_nth [OF NOTES_distinct, of "nat (m mod 12)"] pc by (simp add: NOTES_length)
  have nn: "0 \<le> m mod 12 - int r + 12" using r by simp
  show ?thesis
    using s t k ri ni pi nn by (simp add: sargamLabel_def trunc_rem_def)
qed

lemma sargamLabel_out:
  assumes "rootKey p = None \<or> (\<exists>k. rootKey p = Some k \<and> k \<notin> set NOTES)"
  shows "sargamLabel p m full = full"
  using assms by (auto simp: sargamLabel_def truthy_def indexOf_notin)

lemma pitch_class_name:
  assumes "0 \<le> m" and "r < 12" and "NOTES ! nat (m mod 12) = NOTES ! r"
  shows "m mod 12 = int r"
proof -
  have "nat (m mod 12) < length NOTES" by (simp add: NOTES_length)
  then have "nat (m mod 12) = r"
    using assms(2,3) nth_eq_iff_index_eq [OF NOTES_distinct, of "nat (m mod 12)" r]
    by (simp add: NOTES_length)
  then show ?thesis by simp
qed

lemma sargamLabel_off: "\<not> showSargam p \<Longrightarrow> sargamLabel p m full = full"
  by (simp add: sargamLabel_def)

text \<open>
  Claim C7, as the code has it. The event of closing a run that spans more than 0.15 s, of
  segments that passed a noise gate, is labelled as follows. With scale-degree labels
  switched on (\<open>showSargam\<close>): when the root key is entry \<open>r\<close> of \<^const>\<open>NOTES\<close>, the
  label is entry \<open>(midi mod 12 - r + 12) mod 12\<close> of \<^const>\<open>SARGAM_MAPPING\<close>, a function
  of the pitch class and the root key alone, so that for root C the pitch classes C, D and
  G give Sa, Re and Pa, and for root D the pitch class D gives Sa; when the root key is
  missing or not in the table, the label is the absolute note name. With the labels
  switched off the label is the absolute note name, whatever the root key. Every event that
  the aggregation makes of the segments of a file is labelled so.
\<close>

theorem scale_degree_label:
  assumes "run \<noteq> []" and "endTime (last run) - startTime (hd run) > 0.15"
    and "\<forall>s \<in> set run. 50 \<le> freq s"
  shows "(\<exists>e m. processRun p evs run = evs @ [e]
           \<and> m = round (69 + 12 * log 2 (avgFreq e / 440)) \<and> midi e = JInt m
           \<and> (showSargam p \<longrightarrow>
                 (\<forall>r < 12. rootKey p = Some (NOTES ! r) \<longrightarrow>
                    label e = SARGAM_MAPPING ! nat ((m mod 12 - int r + 12) mod 12))
                 \<and> (rootKey p = Some ''C'' \<longrightarrow>
                       (NOTES ! nat (m mod 12) = ''C'' \<longrightarrow> label e = ''Sa'')
                       \<and> (NOTES ! nat (m mod 12) = ''D'' \<longrightarrow> label e = ''Re'')
                       \<and> (NOTES ! nat (m mod 12) = ''G'' \<longrightarrow> label e = ''Pa''))
                 \<and> (rootKey p = Some ''D'' \<longrightarrow> NOTES ! nat (m mod 12) = ''D'' \<longrightarrow>
                       label e = ''Sa'')
                 \<and> (rootKey p = None \<or> (\<exists>k. rootKey p = Some k \<and> k \<notin> set NOTES) \<longrightarrow>
                       label e = fullNote e))
           \<and> (\<not> showSargam p \<longrightarrow> label e = fullNote e))
         \<and> (\<forall>e \<in> set (analyzePitch_stableNotes YIN p buffer). \<exists>m.
               midi e = JInt m \<and> m = round (69 + 12 * log 2 (avgFreq e / 440))
               \<and> (showSargam p \<longrightarrow>
                     (\<forall>r < 12. rootKey p = Some (NOTES ! r) \<longrightarrow>
                        label e = SARGAM_MAPPING ! nat ((m mod 12 - int r + 12) mod 12))
                     \<and> (rootKey p = None \<or> (\<exists>k. rootKey p = Some k \<and> k \<notin> set NOTES) \<longrightarrow>
                           label e = fullNote e))
               \<and> (\<not> showSargam p \<longrightarrow> label e = fullNote e))"
proof -
  have key: "(\<forall>r < 12. rootKey p = Some (NOTES ! r) \<longrightarrow>
                 label e = SARGAM_MAPPING ! nat ((m mod 12 - int r + 12) mod 12))
           \<and> (rootKey p = Some ''C'' \<longrightarrow>
                 (NOTES ! nat (m mod 12) = ''C'' \<longrightarrow> label e = ''Sa'')
                 \<and> (NOTES ! nat (m mod 12) = ''D'' \<longrightarrow> label e = ''Re'')
                 \<and> (NOTES ! nat (m mod 12) = ''G'' \<longrightarrow> label e = ''Pa''))
           \<and> (rootKey p = Some ''D'' \<longrightarrow> NOTES ! nat (m mod 12) = ''D'' \<longrightarrow> label e = ''Sa'')
           \<and> (rootKey p = None \<or> (\<exists>k. rootKey p = Some k \<and> k \<notin> set NOTES) \<longrightarrow>
                 label e = fullNote e)"
    if m0: "0 \<le> m" and lbl: "label e = sargamLabel p (JInt m) (fullNote e)"
      and on: "showSargam p" for e :: event and m
  proof -
    have gen: "label e = SARGAM_MAPPING ! nat ((m mod 12 - int r + 12) mod 12)"
      if "r < 12" "rootKey p = Some (NOTES ! r)" for r
      using sargamLabel_in [OF m0 on that] lbl by simp
    have C: "NOTES ! 0 = ''C''" and D: "NOTES ! 2 = ''D''" and G: "NOTES ! 7 = ''G''"
      by (simp_all add: NOTES_def)
    have cc: "label e = ''Sa''" if "rootKey p = Some ''C''" "NOTES ! nat (m mod 12) = ''C''"
      using gen [of 0] pitch_class_name [OF m0, of 0] that C by (simp add: SARGAM_MAPPING_def)
    have cd: "label e = ''Re''" if "rootKey p = Some ''C''" "NOTES ! nat (m mod 12) = ''D''"
      using gen [of 0] pitch_class_name [OF m0, of 2] that C D by (simp add: SARGAM_MAPPING_def)
    have cg: "label e = ''Pa''" if "rootKey p = Some ''C''" "NOTES ! nat (m mod 12) = ''G''"
      using gen [of 0] pitch_class_name [OF m0, of 7] that C G by (simp add: SARGAM_MAPPING_def)
    have dd: "label e = ''Sa''" if "rootKey p = Some ''D''" "NOTES ! nat (m mod 12) = ''D''"
      using gen [of 2] pitch_class_name [OF m0, of 2] that D by (simp add: SARGAM_MAPPING_def)
    have out: "label e = fullNote e"
      if "rootKey p = None \<or> (\<exists>k. rootKey p = Some k \<and> k \<notin> set NOTES)"
      using sargamLabel_out [OF that] lbl by simp
    show ?thesis using gen cc cd cg dd out by blast
  qed
  have off: "label e = fullNote e"
    if "label e = sargamLabel p (JInt m) (fullNote e)" and "\<not> showSargam p"
    for e :: event and m
    using that by (simp add: sargamLabel_off)
  have 1: "\<exists>e m. processRun p evs run = evs @ [e]
           \<and> m = round (69 + 12 * log 2 (avgFreq e / 440)) \<and> midi e = JInt m
           \<and> (showSargam p \<longrightarrow>
                 (\<forall>r < 12. rootKey p = Some (NOTES ! r) \<longrightarrow>
                    label e = SARGAM_MAPPING ! nat ((m mod 12 - int r + 12) mod 12))
                 \<and> (rootKey p = Some ''C'' \<longrightarrow>
                       (NOTES ! nat (m mod 12) = ''C'' \<longrightarrow> label e = ''Sa'')
                       \<and> (NOTES ! nat (m mod 12) = ''D'' \<longrightarrow> label e = ''Re'')
                       \<and> (NOTES ! nat (m mod 12) = ''G'' \<longrightarrow> label e = ''Pa''))
                 \<and> (rootKey p = Some ''D'' \<longrightarrow> NOTES ! nat (m mod 12) = ''D'' \<longrightarrow>
                       label e = ''Sa'')
                 \<and> (rootKey p = None \<or> (\<exists>k. rootKey p = Some k \<and> k \<notin> set NOTES) \<longrightarrow>
                       label e = fullNote e))
           \<and> (\<not> showSargam p \<longrightarrow> label e = fullNote e)"
  proof -
    obtain e m where em: "processRun p evs run = evs @ [e]"
      "m = round (69 + 12 * log 2 (avgFreq e / 440))" "0 \<le> m" "midi e = JInt m"
      "label e = sargamLabel p (JInt m) (fullNote e)"
      using processRun_gated [OF assms(1-3), of p evs] by blast
    show ?thesis using em(1,2,4) key [OF em(3,5)] off [OF em(5)] by blast
  qed
  have 2: "\<exists>m. midi e = JInt m \<and> m = round (69 + 12 * log 2 (avgFreq e / 440))
               \<and> (showSargam p \<longrightarrow>
                     (\<forall>r < 12. rootKey p = Some (NOTES ! r) \<longrightarrow>
                        label e = SARGAM_MAPPING ! nat ((m mod 12 - int r + 12) mod 12))
                     \<and> (rootKey p = None \<or> (\<exists>k. rootKey p = Some k \<and> k \<notin> set NOTES) \<longrightarrow>
                           label e = fullNote e))
               \<and> (\<not> showSargam p \<longrightarrow> label e = fullNote e)"
    if h: "e \<in> set (analyzePitch_stableNotes YIN p buffer)" for e
  proof -
    obtain r where r: "r \<noteq> []" "endTime (last r) - startTime (hd r) > 0.15"
      "\<forall>s \<in> set r. 50 \<le> freq s" "processRun p [] r = [e]"
      using file_event_run [OF h] by blast
    obtain e' m where em: "processRun p [] r = [] @ [e']"
      "m = round (69 + 12 * log 2 (avgFreq e' / 440))" "0 \<le> m" "midi e' = JInt m"
      "label e' = sargamLabel p (JInt m) (fullNote e')"
      using processRun_gated [OF r(1,2,3), of p "[]"] by blast
    have e: "e' = e" using em(1) r(4) by simp
    show ?thesis using em(2,4) key [OF em(3,5)] off [OF em(5)] unfolding e by blast
  qed
  show ?thesis using 1 2 by blast
qed

lemma getMidi_294: "getMidi 294 = JInt 62"
  by (rule getMidi_eqI [where a = 0 and b = 15]) simp_all

lemma processRun_C:
  "processRun \<lparr>showSargam = True, rootKey = Some ''C''\<rparr> [] [mk_segment 0 0.2 262] =
     [\<lparr>startTime = 0, endTime = 0.2, avgFreq = 262, midi = JInt 60, label = ''Sa'',
       fullNote = ''C4'', displayLabel = ''Sa''\<rparr>]"
  by (simp add: processRun_def mk_segment_def getMidi_262 NOTES_def SARGAM_MAPPING_def
      sargamLabel_def truthy_def trunc_rem_def show_int_def show_nat.simps digit_char_def Let_def)

lemma processRun_D:
  "processRun \<lparr>showSargam = True, rootKey = Some ''D''\<rparr> [] [mk_segment 0 0.2 294] =
     [\<lparr>startTime = 0, endTime = 0.2, avgFreq = 294, midi = JInt 62, label = ''Sa'',
       fullNote = ''D4'', displayLabel = ''Sa''\<rparr>]"
  by (simp add: processRun_def mk_segment_def getMidi_294 NOTES_def SARGAM_MAPPING_def
      sargamLabel_def truthy_def trunc_rem_def show_int_def show_nat.simps digit_char_def Let_def)

lemma processRun_H:
  "processRun \<lparr>showSargam = True, rootKey = Some ''H''\<rparr> [] [mk_segment 0 0.2 262] =
     [\<lparr>startTime = 0, endTime = 0.2, avgFreq = 262, midi = JInt 60, label = ''C4'',
       fullNote = ''C4'', displayLabel = ''C4''\<rparr>]"
  by (simp add: processRun_def mk_segment_def getMidi_262 NOTES_def SARGAM_MAPPING_def
      sargamLabel_def truthy_def trunc_rem_def show_int_def show_nat.simps digit_char_def Let_def)

lemma processRun_off:
  "processRun \<lparr>showSargam = False, rootKey = Some ''C''\<rparr> [] [mk_segment 0 0.2 262] =
     [\<lparr>startTime = 0, endTime = 0.2, avgFreq = 262, midi = JInt 60, label = ''C4'',
       fullNote = ''C4'', displayLabel = ''C4''\<rparr>]"
  by (simp add: processRun_def mk_segment_def getMidi_262 NOTES_def SARGAM_MAPPING_def
      sargamLabel_def truthy_def trunc_rem_def show_int_def show_nat.simps digit_char_def Let_def)

text \<open>
  With the labels switched off, a C of 262 Hz under the root key C is labelled C4, not Sa.
\<close>

theorem scale_degree_off_counterexample:
  "label (hd (processRun \<lparr>showSargam = False, rootKey = Some ''C''\<rparr> []
       [mk_segment 0 0.2 262])) = ''C4''
   \<and> midi (hd (processRun \<lparr>showSargam = False, rootKey = Some ''C''\<rparr> []
       [mk_segment 0 0.2 262])) = JInt 60
   \<and> NOTES ! nat (60 mod 12) = ''C''
   \<and> ''C4'' \<noteq> ''Sa''"
  unfolding processRun_off by (simp add: NOTES_def)

text \<open>
  A C of 262 Hz under root C, a D of 294 Hz under root D, the C again under a root key
  that is not a note name, and the C with the labels switched off.
\<close>

theorem scale_degree_label_witness:
  "label (hd (processRun \<lparr>showSargam = True, rootKey = Some ''C''\<rparr> [] [mk_segment 0 0.2 262])) = ''Sa''
   \<and> label (hd (processRun \<lparr>showSargam = True, rootKey = Some ''D''\<rparr> [] [mk_segment 0 0.2 294])) = ''Sa''
   \<and> label (hd (processRun \<lparr>showSargam = True, rootKey = Some ''H''\<rparr> [] [mk_segment 0 0.2 262])) = ''C4''
   \<and> label (hd (processRun \<lparr>showSargam = False, rootKey = Some ''C''\<rparr> [] [mk_segment 0 0.2 262])) = ''C4''"
proof -
  let ?c = "[mk_segment 0 0.2 262]" and ?d = "[mk_segment 0 0.2 294]"
  have hc: "?c \<noteq> []" "endTime (last ?c) - startTime (hd ?c) > 0.15" "\<forall>s \<in> set ?c. 50 \<le> freq s"
    by (simp_all add: mk_segment_def)
  have hd: "?d \<noteq> []" "endTime (last ?d) - startTime (hd ?d) > 0.15" "\<forall>s \<in> set ?d. 50 \<le> freq s"
    by (simp_all add: mk_segment_def)
  have 1: "label (hd (processRun \<lparr>showSargam = True, rootKey = Some ''C''\<rparr> [] ?c)) = ''Sa''"
  proof -
    obtain e m where em: "processRun \<lparr>showSargam = True, rootKey = Some ''C''\<rparr> [] ?c = [] @ [e]"
      "midi e = JInt m"
      "rootKey \<lparr>showSargam = True, rootKey = Some ''C''\<rparr> = Some ''C'' \<longrightarrow>
         (NOTES ! nat (m mod 12) = ''C'' \<longrightarrow> label e = ''Sa'')
         \<and> (NOTES ! nat (m mod 12) = ''D'' \<longrightarrow> label e = ''Re'')
         \<and> (NOTES ! nat (m mod 12) = ''G'' \<longrightarrow> label e = ''Pa'')"
      using scale_degree_label [OF hc, where p = "\<lparr>showSargam = True, rootKey = Some ''C''\<rparr>"
          and evs = "[]", THEN conjunct1]
      by auto
    have "m = 60" using em(1,2) unfolding processRun_C by auto
    then have "label e = ''Sa''" using em(3) by (simp add: NOTES_def)
    then show ?thesis using em(1) by simp
  qed
  have 2: "label (hd (processRun \<lparr>showSargam = True, rootKey = Some ''D''\<rparr> [] ?d)) = ''Sa''"
  proof -
    obtain e m where em: "processRun \<lparr>showSargam = True, rootKey = Some ''D''\<rparr> [] ?d = [] @ [e]"
      "midi e = JInt m"
      "rootKey \<lparr>showSargam = True, rootKey = Some ''D''\<rparr> = Some ''D'' \<longrightarrow>
         NOTES ! nat (m mod 12) = ''D'' \<longrightarrow> label e = ''Sa''"
      using scale_degree_label [OF hd, where p = "\<lparr>showSargam = True, rootKey = Some ''D''\<rparr>"
          and evs = "[]", THEN conjunct1]
      by auto
    have "m = 62" using em(1,2) unfolding processRun_D by auto
    then have "label e = ''Sa''" using em(3) by (simp add: NOTES_def)
    then show ?thesis using em(1) by simp
  qed
  have 3: "label (hd (processRun \<lparr>showSargam = True, rootKey = Some ''H''\<rparr> [] ?c)) = ''C4''"
  proof -
    obtain e where em: "processRun \<lparr>showSargam = True, rootKey = Some ''H''\<rparr> [] ?c = [] @ [e]"
      "rootKey \<lparr>showSargam = True, rootKey = Some ''H''\<rparr> = None
       \<or> (\<exists>k. rootKey \<lparr>showSargam = True, rootKey = Some ''H''\<rparr> = Some k \<and> k \<notin> set NOTES)
       \<longrightarrow> label e = fullNote e"
      using scale_degree_label [OF hc, where p = "\<lparr>showSargam = True, rootKey = Some ''H''\<rparr>"
          and evs = "[]", THEN conjunct1]
      by auto
    have "''H'' \<notin> set NOTES" by (simp add: NOTES_def)
    then have "label e = fullNote e" using em(2) by simp
    moreover have "fullNote e = ''C4''" using em(1) unfolding processRun_H by auto
    ultimately show ?thesis using em(1) by simp
  qed
  have 4: "label (hd (processRun \<lparr>showSargam = False, rootKey = Some ''C''\<rparr> [] ?c)) = ''C4''"
  proof -
    obtain e where em: "processRun \<lparr>showSargam = False, rootKey = Some ''C''\<rparr> [] ?c = [] @ [e]"
      "\<not> showSargam \<lparr>showSargam = False, rootKey = Some ''C''\<rparr> \<longrightarrow> label e = fullNote e"
      using scale_degree_label [OF hc, where p = "\<lparr>showSargam = False, rootKey = Some ''C''\<rparr>"
          and evs = "[]", THEN conjunct1]
      by auto
    have "label e = fullNote e" using em(2) by simp
    moreover have "fullNote e = ''C4''" using em(1) unfolding processRun_off by auto
    ultimately show ?thesis using em(1) by simp
  qed
  show ?thesis using 1 2 3 4 by blast
qed

section \<open>The noise gate\<close>

lemma upt_0_Suc: "[0..<Suc n] = 0 # map Suc [0..<n]"
  by (simp add: upt_conv_Cons map_Suc_upt del: upt_Suc)

lemma segments_loop_frames:
  "segments_loop tpf i0 ps =
     concat (map (\<lambda>k. case ps ! k of None \<Rightarrow> []
                        | Some f \<Rightarrow> if f < 60 \<or> f > 1100 then []
                                     else [\<lparr>startTime = real (i0 + k) * tpf,
                                            endTime = (real (i0 + k) + 1) * tpf, freq = f\<rparr>])
                 [0..<length ps])"
proof (induction ps arbitrary: i0)
  case Nil
  then show ?case by simp
next
  case (Cons f ps)
  have IH: "segments_loop tpf (Suc i0) ps =
     concat (map (\<lambda>k. case ps ! k of None \<Rightarrow> []
                        | Some f \<Rightarrow> if f < 60 \<or> f > 1100 then []
                                     else [\<lparr>startTime = real (i0 + Suc k) * tpf,
                                            endTime = (real (i0 + Suc k) + 1) * tpf, freq = f\<rparr>])
                 [0..<length ps])"
    using Cons.IH [of "Suc i0", unfolded add_Suc_shift] .
  show ?case
    by (cases f) (auto simp: IH upt_0_Suc comp_def falsy_def simp del: upt_Suc)
qed

lemma rawSegments_loop_frames:
  "rawSegments_loop tph fs =
     concat (map (\<lambda>k. case snd (fs ! k) of None \<Rightarrow> []
                        | Some f \<Rightarrow> if f < 50 \<or> f > 1200 then []
                                     else [\<lparr>startTime = fst (fs ! k),
                                            endTime = fst (fs ! k) + tph, freq = f\<rparr>])
                 [0..<length fs])"
proof (induction fs)
  case Nil
  then show ?case by simp
next
  case (Cons tf fs)
  obtain t f where tf: "tf = (t, f)" by (cases tf)
  show ?case
    by (cases f) (simp_all add: tf Cons.IH upt_0_Suc comp_def falsy_def del: upt_Suc
        cong: option.case_cong if_cong)
qed

lemma frames_loop_time:
  "k < length (frames_loop d sr data i0) \<Longrightarrow>
   fst (frames_loop d sr data i0 ! k) = real (i0 + k * hopSize) / sr"
proof (induction d sr data i0 arbitrary: k rule: frames_loop.induct)
  case (1 d sr data i)
  show ?case
  proof (cases "i + windowSize \<le> length data")
    case True
    then have eq: "frames_loop d sr data i =
        (real i / sr, d (take windowSize (drop i data))) # frames_loop d sr data (i + hopSize)"
      by (subst frames_loop.simps) simp
    show ?thesis
    proof (cases k)
      case 0
      then show ?thesis by (simp add: eq)
    next
      case (Suc j)
      then have "j < length (frames_loop d sr data (i + hopSize))"
        using "1.prems" eq by simp
      then have "fst (frames_loop d sr data (i + hopSize) ! j) = real (i + hopSize + j * hopSize) / sr"
        using "1.IH" [OF True] by simp
      then show ?thesis using Suc by (simp add: eq algebra_simps)
    qed
  next
    case False
    then have "frames_loop d sr data i = []" by (subst frames_loop.simps) simp
    then show ?thesis using "1.prems" by simp
  qed
qed

text \<open>
  Claim C3 (noise gate). For a buffer with a positive sample rate, the segments of the file
  analysis are, frame by frame and in order: nothing for a frame without estimate or with
  an estimate below 60 Hz or above 1100 Hz, and otherwise the one segment from
  \<open>i * framePeriod\<close> to \<open>(i + 1) * framePeriod\<close> with the estimate as its frequency,
  where \<open>framePeriod = bufferSize / sampleRate\<close>. The raw segments of a recording are
  the same with the bounds 50 Hz and 1200 Hz and \<open>framePeriod = hopSize / sampleRate\<close>.
\<close>

theorem noise_gate:
  assumes "0 < sampleRate buffer"
  shows "(case processBufferToSegments YIN buffer of (pitches, segments) \<Rightarrow>
            segments =
              concat (map (\<lambda>i. case pitches ! i of None \<Rightarrow> []
                   | Some f \<Rightarrow> if f < 60 \<or> f > 1100 then []
                       else [\<lparr>startTime = real i * (real bufferSize / sampleRate buffer),
                              endTime = (real i + 1) * (real bufferSize / sampleRate buffer),
                              freq = f\<rparr>])
                 [0..<length pitches]))
         \<and> (let frames = frames_loop
                  (YIN \<lparr>yin_sampleRate = sampleRate buffer, yin_threshold = Some 0.15,
                        yin_probabilityThreshold = Some 0.05\<rparr>)
                  (sampleRate buffer) (normalizeSamples (channelData buffer)) 0
            in userRawSegments YIN buffer =
              concat (map (\<lambda>i. case snd (frames ! i) of None \<Rightarrow> []
                   | Some f \<Rightarrow> if f < 50 \<or> f > 1200 then []
                       else [\<lparr>startTime = real i * (real hopSize / sampleRate buffer),
                              endTime = (real i + 1) * (real hopSize / sampleRate buffer),
                              freq = f\<rparr>])
                 [0..<length frames]))"
proof -
  let ?sr = "sampleRate buffer"
  let ?frames = "frames_loop
                  (YIN \<lparr>yin_sampleRate = ?sr, yin_threshold = Some 0.15,
                        yin_probabilityThreshold = Some 0.05\<rparr>)
                  ?sr (normalizeSamples (channelData buffer)) 0"
  have filep: "(case processBufferToSegments YIN buffer of (pitches, segments) \<Rightarrow>
            segments =
              concat (map (\<lambda>i. case pitches ! i of None \<Rightarrow> []
                   | Some f \<Rightarrow> if f < 60 \<or> f > 1100 then []
                       else [\<lparr>startTime = real i * (real bufferSize / ?sr),
                              endTime = (real i + 1) * (real bufferSize / ?sr),
                              freq = f\<rparr>])
                 [0..<length pitches]))"
    using segments_loop_frames [of "real bufferSize / ?sr" 0, unfolded add_0]
    by (simp add: processBufferToSegments_def Let_def)
  define frames where "frames = ?frames"
  have t: "fst (frames ! k) = real k * (real hopSize / ?sr)"
    and t': "fst (frames ! k) + real hopSize / ?sr = (real k + 1) * (real hopSize / ?sr)"
    if "k < length frames" for k
    using frames_loop_time [of k] that unfolding frames_def
    by (simp_all add: algebra_simps add_divide_distrib)
  have meq: "map (\<lambda>k. case snd (frames ! k) of None \<Rightarrow> []
                   | Some f \<Rightarrow> if f < 50 \<or> f > 1200 then []
                       else [\<lparr>startTime = fst (frames ! k),
                              endTime = fst (frames ! k) + real hopSize / ?sr, freq = f\<rparr>])
          [0..<length frames] =
        map (\<lambda>i. case snd (frames ! i) of None \<Rightarrow> []
                   | Some f \<Rightarrow> if f < 50 \<or> f > 1200 then []
                       else [\<lparr>startTime = real i * (real hopSize / ?sr),
                              endTime = (real i + 1) * (real hopSize / ?sr), freq = f\<rparr>])
          [0..<length frames]"
    by (rule map_cong) (simp_all add: t algebra_simps add_divide_distrib split: option.splits)
  have "rawSegments_loop (real hopSize / ?sr) frames =
              concat (map (\<lambda>i. case snd (frames ! i) of None \<Rightarrow> []
                   | Some f \<Rightarrow> if f < 50 \<or> f > 1200 then []
                       else [\<lparr>startTime = real i * (real hopSize / ?sr),
                              endTime = (real i + 1) * (real hopSize / ?sr), freq = f\<rparr>])
                 [0..<length frames])"
    unfolding rawSegments_loop_frames [of "real hopSize / ?sr" frames] meq by (rule refl)
  then have livep: "userRawSegments YIN buffer =
              concat (map (\<lambda>i. case snd (?frames ! i) of None \<Rightarrow> []
                   | Some f \<Rightarrow> if f < 50 \<or> f > 1200 then []
                       else [\<lparr>startTime = real i * (real hopSize / ?sr),
                              endTime = (real i + 1) * (real hopSize / ?sr), freq = f\<rparr>])
                 [0..<length ?frames])"
    unfolding frames_def userRawSegments_def Let_def .
  show ?thesis using filep livep unfolding Let_def by (rule conjI)
qed

lemma demo_YIN_replicate:
  "0 < n \<Longrightarrow> demo_YIN opts (replicate n x) =
     (if x = 0 then None else if x < 1 then Some 440 else Some 880)"
  by (simp add: demo_YIN_def)

lemma pitches_demo:
  "pitches_loop (demo_YIN opts) (replicate 2048 0 @ [1 / 2]) 0 = [None, Some 440]"
  by (simp add: pitches_loop.simps bufferSize_def demo_YIN_replicate) (simp add: demo_YIN_def)

lemma maxAmp_small:
  "acc \<le> b \<Longrightarrow> \<forall>x \<in> set xs. \<bar>x\<bar> \<le> b \<Longrightarrow>
   foldl (\<lambda>m x. if \<bar>x\<bar> > m then \<bar>x\<bar> else m) acc xs \<le> (b::real)"
  by (induction xs arbitrary: acc) simp_all

lemma normalizeSamples_small:
  assumes "\<forall>x \<in> set xs. \<bar>x\<bar> \<le> 0.001"
  shows "normalizeSamples xs = xs"
proof -
  have "foldl (\<lambda>m x. if \<bar>x\<bar> > m then \<bar>x\<bar> else m) 0 xs \<le> 0.001"
    using maxAmp_small [of 0 "0.001" xs] assms by simp
  then show ?thesis by (simp add: normalizeSamples_def Let_def)
qed

lemma frames_demo:
  "frames_loop (demo_YIN opts) 44100 (replicate 512 0 @ replicate 2048 (1 / 1000)) 0 =
     [(0, None), (512 / 44100, Some 440)]"
  by (simp add: frames_loop.simps windowSize_def hopSize_def demo_YIN_replicate)
    (simp add: demo_YIN_def)

text \<open>
  A file of 2049 samples has a silent first frame and a second frame at 440 Hz; a quiet
  recording of 2560 samples has a silent first window and a second window at 440 Hz.
\<close>

theorem noise_gate_witness:
  "processBufferToSegments demo_YIN
     \<lparr>sampleRate = 44100, channelData = replicate 2048 0 @ [1 / 2]\<rparr> =
     ([None, Some 440], [\<lparr>startTime = 2048 / 44100, endTime = 4096 / 44100, freq = 440\<rparr>])
   \<and> userRawSegments demo_YIN
     \<lparr>sampleRate = 44100, channelData = replicate 512 0 @ replicate 2048 (1 / 1000)\<rparr> =
     [\<lparr>startTime = 512 / 44100, endTime = 1024 / 44100, freq = 440\<rparr>]"
proof -
  let ?b1 = "\<lparr>sampleRate = 44100, channelData = replicate 2048 0 @ [1 / 2]\<rparr>"
  let ?b2 = "\<lparr>sampleRate = 44100, channelData = replicate 512 0 @ replicate 2048 (1 / 1000)\<rparr>"
  obtain ps ss where pb: "processBufferToSegments demo_YIN ?b1 = (ps, ss)" by force
  have ps: "ps = [None, Some 440]"
    using pb by (simp add: processBufferToSegments_def Let_def pitches_demo)
  have "0 < sampleRate ?b1" by simp
  from noise_gate [OF this, of demo_YIN, THEN conjunct1]
  have ss: "ss = [\<lparr>startTime = 2048 / 44100, endTime = 4096 / 44100, freq = 440\<rparr>]"
    unfolding pb by (simp add: ps bufferSize_def)
  have n: "normalizeSamples (channelData ?b2) = channelData ?b2"
    by (rule normalizeSamples_small) auto
  have "0 < sampleRate ?b2" by simp
  from noise_gate [OF this, of demo_YIN, THEN conjunct2]
  have us: "userRawSegments demo_YIN ?b2 =
      [\<lparr>startTime = 512 / 44100, endTime = 1024 / 44100, freq = 440\<rparr>]"
    unfolding n Let_def by (simp add: frames_demo hopSize_def)
  show ?thesis using pb ps ss us by simp
qed

section \<open>The median filter\<close>

lemma sort3_median: "sort [a, b, c] ! Suc 0 = spec_median a b (c::real)"
  by (auto simp: spec_median_def max_def min_def)

lemma spec_median_middle: "a \<le> b \<Longrightarrow> b \<le> c \<Longrightarrow> spec_median a b c = b"
  by (simp add: spec_median_def)

lemma spec_median_swap:
  "spec_median a b c = spec_median b a c" "spec_median a b c = spec_median a c b"
  by (auto simp: spec_median_def max_def min_def)

lemma medianFilter_nth:
  assumes "i < length raw"
  shows "medianFilter raw ! i =
           (raw ! i)\<lparr>freq := spec_median (freq (raw ! (if i = 0 then i else i - 1)))
                                 (freq (raw ! i))
                                 (freq (raw ! (if i = length raw - 1 then i else i + 1)))\<rparr>"
proof -
  have l: "i < length raw - 1 \<longleftrightarrow> i \<noteq> length raw - 1" using assms by auto
  have e: "[0..<length raw] ! i = i" using assms by simp
  have "medianFilter raw ! i =
      (let prev = (if i > 0 then freq (raw ! (i - 1)) else freq (raw ! i));
           curr = freq (raw ! i);
           next = (if i < length raw - 1 then freq (raw ! (i + 1)) else curr);
           sorted = sort [prev, curr, next]
       in (raw ! i)\<lparr>freq := sorted ! 1\<rparr>)"
    unfolding medianFilter_def using assms by (simp only: nth_map length_upt diff_zero e)
  then show ?thesis
    using l by (cases "i = 0") (simp_all add: Let_def sort3_median del: sort_key_simps)
qed

text \<open>
  Claim C5 (median smoother). The filtered list has the length of the raw list; at each
  index the start and the end are those of the raw segment and the frequency is the median
  of the raw frequencies at the index before (or the index itself at the front), the index
  and the index after (or the index itself at the back). A spike 220, 880, 225 leaves 225
  in the middle.
\<close>

theorem median_smoother:
  "length (medianFilter raw) = length raw
   \<and> (\<forall>i < length raw.
         startTime (medianFilter raw ! i) = startTime (raw ! i)
         \<and> endTime (medianFilter raw ! i) = endTime (raw ! i)
         \<and> freq (medianFilter raw ! i) =
             spec_median (freq (raw ! (if i = 0 then i else i - 1)))
                         (freq (raw ! i))
                         (freq (raw ! (if i = length raw - 1 then i else i + 1))))
   \<and> (freq a = 220 \<and> freq b = 880 \<and> freq c = 225 \<longrightarrow>
         map freq (medianFilter [a, b, c]) = [220, 225, 225])"
proof (intro conjI allI impI)
  show "length (medianFilter raw) = length raw" by (simp add: medianFilter_def)
next
  fix i assume i: "i < length raw"
  show "startTime (medianFilter raw ! i) = startTime (raw ! i)"
    and "endTime (medianFilter raw ! i) = endTime (raw ! i)"
    and "freq (medianFilter raw ! i) =
             spec_median (freq (raw ! (if i = 0 then i else i - 1)))
                         (freq (raw ! i))
                         (freq (raw ! (if i = length raw - 1 then i else i + 1)))"
    by (simp_all add: medianFilter_nth [OF i])
next
  assume "freq a = 220 \<and> freq b = 880 \<and> freq c = 225"
  then show "map freq (medianFilter [a, b, c]) = [220, 225, 225]"
    by (simp add: medianFilter_def Let_def sort3_median spec_median_def upt_conv_Cons
        del: sort_key_simps upt_Suc)
qed

text \<open>The spike on three concrete segments.\<close>

theorem median_smoother_witness:
  "medianFilter [mk_segment 0 1 220, mk_segment 1 2 880, mk_segment 2 3 225] =
     [mk_segment 0 1 220, mk_segment 1 2 225, mk_segment 2 3 225]"
proof -
  let ?raw = "[mk_segment 0 1 220, mk_segment 1 2 880, mk_segment 2 3 225]"
  note ms = median_smoother [of ?raw "mk_segment 0 1 220" "mk_segment 1 2 880" "mk_segment 2 3 225"]
  have f: "map freq (medianFilter ?raw) = [220, 225, 225]"
    using ms [THEN conjunct2, THEN conjunct2] by (simp add: mk_segment_def)
  have l: "length (medianFilter ?raw) = 3" using ms [THEN conjunct1] by simp
  have t: "\<forall>i < 3. startTime (medianFilter ?raw ! i) = startTime (?raw ! i)
         \<and> endTime (medianFilter ?raw ! i) = endTime (?raw ! i)"
    using ms [THEN conjunct2, THEN conjunct1] by simp
  have "\<forall>i < 3. medianFilter ?raw ! i =
      [mk_segment 0 1 220, mk_segment 1 2 225, mk_segment 2 3 225] ! i"
  proof (intro allI impI)
    fix i :: nat assume "i < 3"
    then have "i = 0 \<or> i = 1 \<or> i = 2" by arith
    moreover have "freq (medianFilter ?raw ! i) = [220, 225, 225] ! i" if "i < 3" for i
      using f l that by (metis nth_map)
    ultimately show "medianFilter ?raw ! i =
      [mk_segment 0 1 220, mk_segment 1 2 225, mk_segment 2 3 225] ! i"
      using t by (auto simp: mk_segment_def)
  qed
  then show ?thesis using l by (simp add: list_eq_iff_nth_eq)
qed

section \<open>Gap filling\<close>

lemma fillGaps_Nil: "fillGaps tph [] = []"
  by (simp add: fillGaps_def)

lemma fillGaps_single: "fillGaps tph [x] = [x]"
  by (simp add: fillGaps_def)

lemma fillGaps_Cons2:
  "fillGaps tph (x # y # rest) = x # fillBetween tph x y @ fillGaps tph (y # rest)"
proof -
  let ?xs = "x # y # rest" and ?ys = "y # rest"
  have meq: "map (\<lambda>i. ?xs ! i # (if i < length ?xs - 1
                                then fillBetween tph (?xs ! i) (?xs ! (i + 1)) else []))
            (map Suc [0..<length ?ys])
      = map (\<lambda>i. ?ys ! i # (if i < length ?ys - 1
                                then fillBetween tph (?ys ! i) (?ys ! (i + 1)) else []))
            [0..<length ?ys]"
    unfolding map_map by (rule map_cong) simp_all
  have idx: "[0..<length ?xs] = 0 # map Suc [0..<length ?ys]"
    by (simp add: upt_conv_Cons map_Suc_upt del: upt_Suc)
  show ?thesis
    unfolding fillGaps_def idx list.map(2) concat.simps(2) meq by simp
qed

lemma fillBetween_empty:
  "fillBetween tph cur nxt = [] \<longleftrightarrow>
     \<not> (0 < startTime nxt - endTime cur \<and> startTime nxt - endTime cur < 1.5)"
  by (simp add: fillBetween_def Let_def max_def)

lemma fillBetween_length:
  assumes "0 < startTime nxt - endTime cur" and "startTime nxt - endTime cur < 1.5"
  shows "length (fillBetween tph cur nxt) =
           nat (max 1 (round ((startTime nxt - endTime cur) / tph)))"
  using assms by (simp add: fillBetween_def Let_def)

lemma fillBetween_nth:
  assumes "0 < startTime nxt - endTime cur" and "startTime nxt - endTime cur < 1.5"
    and "steps = max 1 (round ((startTime nxt - endTime cur) / tph))"
    and "1 \<le> s" and "s \<le> steps"
  shows "fillBetween tph cur nxt ! nat (s - 1) =
           \<lparr>startTime = endTime cur + (real_of_int s - 1) * tph,
            endTime = endTime cur + real_of_int s * tph,
            freq = freq cur * (1 - real_of_int s / (real_of_int steps + 1))
                   + freq nxt * (real_of_int s / (real_of_int steps + 1))\<rparr>"
proof -
  have k: "nat (s - 1) < length [1..steps]" using assms(4,5) by simp
  have n: "[1..steps] ! nat (s - 1) = s" using assms(4,5) by simp
  have "fillBetween tph cur nxt =
          map (\<lambda>s. \<lparr>startTime = endTime cur + (real_of_int s - 1) * tph,
                     endTime = endTime cur + real_of_int s * tph,
                     freq = freq cur * (1 - real_of_int s / (real_of_int steps + 1))
                            + freq nxt * (real_of_int s / (real_of_int steps + 1))\<rparr>)
              [1..steps]"
    using assms(1,2,3) by (simp add: fillBetween_def Let_def)
  then show ?thesis using k n by (simp only: nth_map)
qed

text \<open>
  Claim C6 (gap interpolation). The filled list keeps every smoothed segment and puts,
  between each segment and its successor, the synthetic segments of \<^const>\<open>fillBetween\<close>.
  With \<open>gap\<close> the successor's start minus the segment's end, there are synthetic segments
  exactly when \<open>0 < gap < 1.5\<close>; then there are \<open>steps = max 1 (round (gap / timePerHop))\<close>
  of them, and the one numbered \<open>s\<close> from 1 to \<open>steps\<close> runs from
  \<open>end + (s - 1) * timePerHop\<close> to \<open>end + s * timePerHop\<close> with the frequency
  \<open>freq cur * (1 - t) + freq nxt * t\<close> for \<open>t = s / (steps + 1)\<close>, which is the mean of the
  two frequencies when \<open>t = 1/2\<close>. A gap of 0 or of at least 1.5 gives none.
\<close>

theorem gap_interpolation:
  assumes "gap = startTime nxt - endTime cur" and "steps = max 1 (round (gap / tph))"
  shows "fillGaps tph [] = [] \<and> fillGaps tph [x] = [x]
   \<and> fillGaps tph (x # y # rest) = x # fillBetween tph x y @ fillGaps tph (y # rest)
   \<and> (fillBetween tph cur nxt \<noteq> [] \<longleftrightarrow> 0 < gap \<and> gap < 1.5)
   \<and> (0 < gap \<and> gap < 1.5 \<longrightarrow>
         length (fillBetween tph cur nxt) = nat steps
         \<and> (\<forall>s. 1 \<le> s \<and> s \<le> steps \<longrightarrow>
               fillBetween tph cur nxt ! nat (s - 1) =
                 \<lparr>startTime = endTime cur + (real_of_int s - 1) * tph,
                  endTime = endTime cur + real_of_int s * tph,
                  freq = freq cur * (1 - real_of_int s / (real_of_int steps + 1))
                         + freq nxt * (real_of_int s / (real_of_int steps + 1))\<rparr>
               \<and> (real_of_int s / (real_of_int steps + 1) = 1 / 2 \<longrightarrow>
                     freq (fillBetween tph cur nxt ! nat (s - 1)) = (freq cur + freq nxt) / 2)))
   \<and> (gap = 0 \<or> 1.5 \<le> gap \<longrightarrow> fillBetween tph cur nxt = [])"
proof -
  have e: "fillBetween tph cur nxt \<noteq> [] \<longleftrightarrow> 0 < gap \<and> gap < 1.5"
    using fillBetween_empty [of tph cur nxt] assms(1) by simp
  have n: "fillBetween tph cur nxt = []" if "gap = 0 \<or> 1.5 \<le> gap"
    using e that by auto
  have l: "length (fillBetween tph cur nxt) = nat steps" if "0 < gap \<and> gap < 1.5"
    using fillBetween_length [of nxt cur tph] that assms by simp
  have f: "fillBetween tph cur nxt ! nat (s - 1) =
                 \<lparr>startTime = endTime cur + (real_of_int s - 1) * tph,
                  endTime = endTime cur + real_of_int s * tph,
                  freq = freq cur * (1 - real_of_int s / (real_of_int steps + 1))
                         + freq nxt * (real_of_int s / (real_of_int steps + 1))\<rparr>"
    if "0 < gap \<and> gap < 1.5" "1 \<le> s \<and> s \<le> steps" for s
    using fillBetween_nth [of nxt cur steps tph s] that assms by simp
  have m: "freq (fillBetween tph cur nxt ! nat (s - 1)) = (freq cur + freq nxt) / 2"
    if "0 < gap \<and> gap < 1.5" "1 \<le> s \<and> s \<le> steps"
      "real_of_int s / (real_of_int steps + 1) = 1 / 2" for s
    by (simp only: f [OF that(1,2)] that(3)) (simp add: field_simps)
  show ?thesis
    using fillGaps_Nil [of tph] fillGaps_single [of tph x] fillGaps_Cons2 [of tph x y rest]
      e n l f m by blast
qed

text \<open>
  With a hop of 0.1 s, a gap of 0.1 s between 200 Hz and 400 Hz is filled by one segment
  of 300 Hz; touching segments and a gap of 1.5 s are left alone.
\<close>

theorem gap_interpolation_witness:
  "fillGaps 0.1 [mk_segment 0 0.1 200, mk_segment 0.2 0.3 400] =
     [mk_segment 0 0.1 200, mk_segment 0.1 0.2 300, mk_segment 0.2 0.3 400]
   \<and> fillBetween 0.1 (mk_segment 0 0.1 200) (mk_segment 0.1 0.2 400) = []
   \<and> fillBetween 0.1 (mk_segment 0 0.1 200) (mk_segment 1.6 1.7 400) = []"
proof -
  let ?a = "mk_segment 0 0.1 200" and ?b = "mk_segment 0.2 0.3 400"
  have g: "(0.1::real) = startTime ?b - endTime ?a" by (simp add: mk_segment_def)
  have st: "(1::int) = max 1 (round ((0.1::real) / 0.1))" by simp
  note gi = gap_interpolation [OF g st, where x = ?a and y = ?b and rest = "[]"]
  have c: "fillGaps 0.1 [?a, ?b] = ?a # fillBetween 0.1 ?a ?b @ fillGaps 0.1 [?b]"
    using gi [THEN conjunct2, THEN conjunct2, THEN conjunct1] .
  have s1: "fillGaps 0.1 [?b] = [?b]"
    using gap_interpolation [OF g st, where x = ?b, THEN conjunct2, THEN conjunct1] .
  have pr: "0 < (0.1::real) \<and> (0.1::real) < 1.5" by simp
  note r = gi [THEN conjunct2, THEN conjunct2, THEN conjunct2, THEN conjunct2, THEN conjunct1,
      THEN mp, OF pr]
  have len: "length (fillBetween 0.1 ?a ?b) = 1" using r [THEN conjunct1] by simp
  have one: "(1::int) \<le> 1 \<and> (1::int) \<le> 1" by simp
  have "fillBetween 0.1 ?a ?b ! 0 = mk_segment 0.1 0.2 300"
    using r [THEN conjunct2, THEN spec, of 1, THEN mp, OF one, THEN conjunct1]
    by (simp add: mk_segment_def)
  then have fb: "fillBetween 0.1 ?a ?b = [mk_segment 0.1 0.2 300]"
    using len by (cases "fillBetween 0.1 ?a ?b") simp_all
  have 1: "fillGaps 0.1 [?a, ?b] = [?a, mk_segment 0.1 0.2 300, ?b]"
    unfolding c s1 fb by simp
  have g0: "(0::real) = startTime (mk_segment 0.1 0.2 400) - endTime ?a"
    by (simp add: mk_segment_def)
  have 2: "fillBetween 0.1 ?a (mk_segment 0.1 0.2 400) = []"
    using gap_interpolation [OF g0 refl, where tph = "0.1"] by simp
  have g2: "(1.5::real) = startTime (mk_segment 1.6 1.7 400) - endTime ?a"
    by (simp add: mk_segment_def)
  have 3: "fillBetween 0.1 ?a (mk_segment 1.6 1.7 400) = []"
    using gap_interpolation [OF g2 refl, where tph = "0.1"] by simp
  show ?thesis using 1 2 3 by blast
qed

section \<open>Estimator calls\<close>

lemma blocks_step:
  assumes b: "0 < (b::nat)" and i: "i < n"
  shows "(n - i + b - 1) div b = Suc ((n - (i + b) + b - 1) div b)"
proof -
  define m where "m = n - i - 1"
  have ni: "n - i = Suc m" using i by (simp add: m_def)
  have l: "(n - i + b - 1) div b = Suc (m div b)"
  proof -
    have e: "n - i + b - 1 = m + b" by (simp add: ni)
    have "(m + b) div b = Suc (m div b)" using b by simp
    then show ?thesis by (simp only: e)
  qed
  have r: "(n - (i + b) + b - 1) div b = m div b"
  proof (cases "m < b")
    case True
    then have "n - (i + b) = 0" using ni by simp
    then have e: "n - (i + b) + b - 1 = b - 1" by simp
    have "(b - 1) div b = 0" using b by simp
    then show ?thesis using True by (simp only: e div_less)
  next
    case False
    then have e: "n - (i + b) + b - 1 = m" using ni by simp
    show ?thesis by (simp only: e)
  qed
  show ?thesis by (simp only: l r)
qed

lemma frames_step:
  assumes h: "0 < (h::nat)" and w: "i + w \<le> n"
  shows "Suc (if n < i + h + w then 0 else (n - (i + h + w)) div h + 1) = (n - (i + w)) div h + 1"
proof -
  define m where "m = n - (i + w)"
  have n: "n = m + (i + w)" using w by (simp add: m_def)
  show ?thesis
  proof (cases "m < h")
    case True
    then have "n < i + h + w" by (simp add: n)
    moreover have "m div h = 0" using True by simp
    ultimately show ?thesis by (simp only: m_def [symmetric]) simp
  next
    case False
    then obtain k where k: "m = k + h" using le_Suc_ex [of h m] by (auto simp: add.commute)
    have a: "\<not> n < i + h + w" by (simp add: n k)
    have b: "n - (i + h + w) = k" by (simp add: n k)
    have "(k + h) div h = k div h + 1" using h by simp
    then show ?thesis by (simp only: m_def [symmetric] a b k if_False)
  qed
qed

lemma pitches_loop_map:
  "pitches_loop d data i =
     map (\<lambda>k. d (take bufferSize (drop (i + k * bufferSize) data)))
       [0..<(length data - i + bufferSize - 1) div bufferSize]"
proof (induction d data i rule: pitches_loop.induct)
  case (1 d data i)
  show ?case
  proof (cases "i < length data")
    case True
    have n: "(length data - i + bufferSize - 1) div bufferSize =
             Suc ((length data - (i + bufferSize) + bufferSize - 1) div bufferSize)"
      using True by (intro blocks_step) (simp_all add: bufferSize_def)
    have "pitches_loop d data i =
        d (take bufferSize (drop i data)) # pitches_loop d data (i + bufferSize)"
      using True by (subst pitches_loop.simps) simp
    also have "pitches_loop d data (i + bufferSize) =
        map (\<lambda>k. d (take bufferSize (drop (i + bufferSize + k * bufferSize) data)))
          [0..<(length data - (i + bufferSize) + bufferSize - 1) div bufferSize]"
      using "1.IH" [OF True] .
    finally show ?thesis
      unfolding n upt_0_Suc by (simp add: comp_def add.assoc)
  next
    case False
    then have "pitches_loop d data i = []" by (subst pitches_loop.simps) simp
    moreover have "(length data - i + bufferSize - 1) div bufferSize = 0"
      using False by (simp add: bufferSize_def)
    ultimately show ?thesis by simp
  qed
qed

lemma frames_loop_length:
  "length (frames_loop d sr data i) =
     (if length data < i + windowSize then 0 else (length data - (i + windowSize)) div hopSize + 1)"
proof (induction d sr data i rule: frames_loop.induct)
  case (1 d sr data i)
  show ?case
  proof (cases "i + windowSize \<le> length data")
    case True
    have "frames_loop d sr data i =
        (real i / sr, d (take windowSize (drop i data))) # frames_loop d sr data (i + hopSize)"
      using True by (subst frames_loop.simps) simp
    then have "length (frames_loop d sr data i) = Suc (length (frames_loop d sr data (i + hopSize)))"
      by simp
    also have "\<dots> = Suc (if length data < i + hopSize + windowSize then 0
        else (length data - (i + hopSize + windowSize)) div hopSize + 1)"
      by (simp only: "1.IH" [OF True])
    also have "\<dots> = (length data - (i + windowSize)) div hopSize + 1"
      by (rule frames_step) (simp_all add: hopSize_def True)
    finally show ?thesis using True by simp
  next
    case False
    then have "frames_loop d sr data i = []" by (subst frames_loop.simps) simp
    then show ?thesis using False by simp
  qed
qed

text \<open>
  Claim C9, as the code has it. The analysis checks neither the sample rate nor the window
  and hop sizes. The sizes are constants (2048 and 2048 for a file, 2048 and 512 for a
  recording, so the hop never exceeds the window), and for every buffer, whatever its
  sample rate, the estimator is called on each block of the file in turn and the
  estimates are returned; a recording of \<open>n\<close> samples gives \<open>(n - 2048) div 512 + 1\<close>
  frames when \<open>n\<close> is at least 2048 and none otherwise.
\<close>

theorem analysis_without_validation:
  "fst (processBufferToSegments YIN buffer) =
     map (\<lambda>k. YIN \<lparr>yin_sampleRate = sampleRate buffer, yin_threshold = None,
                     yin_probabilityThreshold = None\<rparr>
                 (take bufferSize (drop (k * bufferSize) (channelData buffer))))
       [0..<(length (channelData buffer) + bufferSize - 1) div bufferSize]
   \<and> length (frames_loop d sr data 0) =
       (if length data < windowSize then 0 else (length data - windowSize) div hopSize + 1)
   \<and> bufferSize = 2048 \<and> windowSize = 2048 \<and> hopSize = 512 \<and> hopSize \<le> windowSize"
  using pitches_loop_map [of _ "channelData buffer" 0] frames_loop_length [of d sr data 0]
  by (simp add: processBufferToSegments_def Let_def bufferSize_def windowSize_def hopSize_def)

text \<open>
  With a sample rate of \<open>-1\<close> the file analysis calls the estimator and returns a
  segment that ends before it starts.
\<close>

theorem configuration_error_counterexample:
  "processBufferToSegments demo_YIN \<lparr>sampleRate = - 1, channelData = [1]\<rparr> =
     ([Some 880], [\<lparr>startTime = 0, endTime = - 2048, freq = 880\<rparr>])"
  by (simp add: processBufferToSegments_def Let_def pitches_loop.simps bufferSize_def demo_YIN_def
      falsy_def)

section \<open>Time order of the events\<close>

lemma processRun_span:
  assumes "e \<in> set (processRun p [] run)"
  shows "run \<noteq> [] \<and> startTime e = startTime (hd run) \<and> endTime e = endTime (last run)
         \<and> startTime e + 0.15 < endTime e"
proof -
  have ne: "run \<noteq> []" and d: "endTime (last run) - startTime (hd run) > 0.15"
    and pr: "processRun p [] run = [e]"
    using processRun_event [OF assms] by simp_all
  obtain e' where e': "processRun p [] run = [] @ [e']"
    "startTime e' = startTime (hd run)" "endTime e' = endTime (last run)"
    using processRun_emit [OF ne d, of p "[]"] by blast
  then have "e' = e" using pr by simp
  then show ?thesis using e' ne d by simp
qed

lemma events_sorted:
  assumes "sorted_wrt (\<lambda>a b. endTime a \<le> startTime b) (concat runs)"
  shows "sorted_wrt (\<lambda>a b. endTime a \<le> startTime b) (concat (map (processRun p []) runs))"
  using assms
proof (induction runs)
  case Nil
  then show ?case by simp
next
  case (Cons r rs)
  have s: "sorted_wrt (\<lambda>a b. endTime a \<le> startTime b) (concat rs)"
    and x: "\<forall>a \<in> set r. \<forall>b \<in> set (concat rs). endTime a \<le> startTime b"
    using Cons.prems by (simp_all add: sorted_wrt_append)
  have 1: "sorted_wrt (\<lambda>a b. endTime a \<le> startTime b) (processRun p [] r)"
  proof (cases "processRun p [] r")
    case Nil
    then show ?thesis by simp
  next
    case (Cons e es)
    then have "e \<in> set (processRun p [] r)" by simp
    then have "processRun p [] r = [e]" using processRun_event by blast
    then show ?thesis by simp
  qed
  have 2: "endTime e \<le> startTime e'"
    if h1: "e \<in> set (processRun p [] r)"
      and h2: "e' \<in> set (concat (map (processRun p []) rs))" for e e'
  proof -
    obtain r' where r': "r' \<in> set rs" "e' \<in> set (processRun p [] r')" using h2 by auto
    have a: "r \<noteq> []" "endTime e = endTime (last r)" using processRun_span [OF h1] by simp_all
    have b: "r' \<noteq> []" "startTime e' = startTime (hd r')" using processRun_span [OF r'(2)] by simp_all
    have "last r \<in> set r" using a(1) by simp
    moreover have "hd r' \<in> set r'" using b(1) by simp
    then have "hd r' \<in> set (concat rs)" using r'(1) by auto
    ultimately have "endTime (last r) \<le> startTime (hd r')" using x by blast
    then show ?thesis using a(2) b(2) by simp
  qed
  show ?case
    using 1 2 Cons.IH [OF s] by (simp add: sorted_wrt_append)
qed

lemma stableNotes_sorted:
  assumes "sorted_wrt (\<lambda>a b. endTime a \<le> startTime b) segs"
  shows "sorted_wrt (\<lambda>a b. endTime a \<le> startTime b) (stableNotes p segs)"
  using events_sorted [of "spec_runs segs" p] assms
  by (simp add: stableNotes_spec_runs concat_spec_runs)

lemma stableNotes_long:
  assumes "e \<in> set (stableNotes p segs)"
  shows "startTime e + 0.15 < endTime e"
proof -
  obtain run where "e \<in> set (processRun p [] run)"
    using assms by (auto simp: stableNotes_spec_runs)
  then show ?thesis using processRun_span by blast
qed

lemma segments_loop_sorted:
  assumes "0 \<le> tpf"
  shows "sorted_wrt (\<lambda>a b. endTime a \<le> startTime b) (segments_loop tpf i ps)
         \<and> (\<forall>s \<in> set (segments_loop tpf i ps). real i * tpf \<le> startTime s)"
proof (induction ps arbitrary: i)
  case Nil
  then show ?case by simp
next
  case (Cons f ps)
  have IH: "sorted_wrt (\<lambda>a b. endTime a \<le> startTime b) (segments_loop tpf (Suc i) ps)"
    and lb: "\<forall>s \<in> set (segments_loop tpf (Suc i) ps). (real i + 1) * tpf \<le> startTime s"
    using Cons.IH [of "Suc i"] by (simp_all add: add.commute)
  have "real i * tpf \<le> (real i + 1) * tpf" using assms by (simp add: algebra_simps)
  then have lb': "\<forall>s \<in> set (segments_loop tpf (Suc i) ps). real i * tpf \<le> startTime s"
    using lb by fastforce
  show ?case using IH lb lb' by simp
qed

lemma processBufferToSegments_sorted:
  assumes "0 < sampleRate buffer"
  shows "sorted_wrt (\<lambda>a b. endTime a \<le> startTime b) (snd (processBufferToSegments YIN buffer))"
proof -
  have "0 \<le> real bufferSize / sampleRate buffer" using assms by simp
  then show ?thesis
    using segments_loop_sorted unfolding processBufferToSegments_def Let_def by simp
qed

lemma chain_lookup:
  assumes srt: "sorted_wrt (\<lambda>a b. endTime a \<le> startTime b) (evs :: event list)"
    and pos: "\<forall>e \<in> set evs. startTime e < endTime e"
  shows "(\<forall>i j t. i < j \<and> j < length evs \<and> active_at t (evs ! i) \<and> active_at t (evs ! j) \<longrightarrow>
            j = Suc i \<and> t = endTime (evs ! i) \<and> t = startTime (evs ! j))
         \<and> (\<forall>i t. i < length evs \<and> startTime (evs ! i) < t \<and> t \<le> endTime (evs ! i) \<longrightarrow>
            checkPitch evs t = Some (evs ! i))"
proof -
  have ord: "endTime (evs ! a) \<le> startTime (evs ! b)" if "a < b" "b < length evs" for a b
    using srt that by (simp add: sorted_wrt_iff_nth_less)
  have two: "j = Suc i \<and> t = endTime (evs ! i) \<and> t = startTime (evs ! j)"
    if h: "i < j \<and> j < length evs \<and> active_at t (evs ! i) \<and> active_at t (evs ! j)" for i j t
  proof -
    have ij: "endTime (evs ! i) \<le> startTime (evs ! j)" using ord h by blast
    have t: "t \<le> endTime (evs ! i)" "startTime (evs ! j) \<le> t"
      using h by (simp_all add: active_at_def)
    have eq: "t = endTime (evs ! i)" "t = startTime (evs ! j)" using ij t by linarith+
    have "j = Suc i"
    proof (rule ccontr)
      assume "j \<noteq> Suc i"
      then have l: "i < Suc i" "Suc i < j" "Suc i < length evs" using h by linarith+
      have "endTime (evs ! i) \<le> startTime (evs ! Suc i)" using ord l by blast
      moreover have "startTime (evs ! Suc i) < endTime (evs ! Suc i)" using pos l(3) by simp
      moreover have "endTime (evs ! Suc i) \<le> startTime (evs ! j)" using ord l h by blast
      ultimately show False using eq by linarith
    qed
    then show ?thesis using eq by blast
  qed
  have one: "checkPitch evs t = Some (evs ! i)"
    if h: "i < length evs \<and> startTime (evs ! i) < t \<and> t \<le> endTime (evs ! i)" for i t
  proof -
    have "\<not> (t \<ge> startTime (evs ! l) \<and> t \<le> endTime (evs ! l))" if "l < i" for l
      using ord [OF that] h by auto
    then show ?thesis
      unfolding checkPitch_def find_Some_iff using h by auto
  qed
  show ?thesis using two one by blast
qed

text \<open>
  Claim C8, as the code has it. The aggregation receives the segments of the file
  analysis and no others. For a buffer with a positive sample rate its events are in time
  order: each event ends no later than the next one starts, and each lasts a positive
  time. Two events can hold the same playback time only when they are neighbours and the
  time is the end of the first and the start of the second; the lookup returns the event
  that a time lies in after its start and up to its end.
\<close>

theorem events_time_ordered:
  assumes "0 < sampleRate buffer"
    and "evs = analyzePitch_stableNotes YIN p buffer"
  shows "sorted_wrt (\<lambda>a b. endTime a \<le> startTime b) evs
         \<and> (\<forall>e \<in> set evs. startTime e < endTime e)
         \<and> (\<forall>i j t. i < j \<and> j < length evs \<and> active_at t (evs ! i) \<and> active_at t (evs ! j) \<longrightarrow>
               j = Suc i \<and> t = endTime (evs ! i) \<and> t = startTime (evs ! j))
         \<and> (\<forall>i t. i < length evs \<and> startTime (evs ! i) < t \<and> t \<le> endTime (evs ! i) \<longrightarrow>
               checkPitch evs t = Some (evs ! i))"
proof -
  have ev: "evs = stableNotes p (snd (processBufferToSegments YIN buffer))"
    using assms(2) by (simp only: analyzePitch_stableNotes_def)
  have srt: "sorted_wrt (\<lambda>a b. endTime a \<le> startTime b) evs"
    unfolding ev by (rule stableNotes_sorted [OF processBufferToSegments_sorted [OF assms(1)]])
  have pos: "\<forall>e \<in> set evs. startTime e < endTime e"
  proof
    fix e assume "e \<in> set evs"
    then have "startTime e + 0.15 < endTime e" using ev stableNotes_long by blast
    then show "startTime e < endTime e" by simp
  qed
  show ?thesis using srt pos chain_lookup [OF srt pos] by blast
qed

lemma demo_pitches:
  "pitches_loop (demo_YIN opts) (replicate 8192 (1 / 2) @ replicate 8192 1) 0 =
     [Some 440, Some 440, Some 440, Some 440, Some 880, Some 880, Some 880, Some 880]"
  unfolding pitches_loop_map
  by (simp add: bufferSize_def upt_conv_Cons demo_YIN_replicate del: upt_Suc)

lemma demo_segments:
  "snd (processBufferToSegments demo_YIN
     \<lparr>sampleRate = 44100, channelData = replicate 8192 (1 / 2) @ replicate 8192 1\<rparr>) =
     [mk_segment 0 (2048 / 44100) 440, mk_segment (2048 / 44100) (4096 / 44100) 440,
      mk_segment (4096 / 44100) (6144 / 44100) 440, mk_segment (6144 / 44100) (8192 / 44100) 440,
      mk_segment (8192 / 44100) (10240 / 44100) 880, mk_segment (10240 / 44100) (12288 / 44100) 880,
      mk_segment (12288 / 44100) (14336 / 44100) 880, mk_segment (14336 / 44100) (16384 / 44100) 880]"
  by (simp add: processBufferToSegments_def Let_def demo_pitches falsy_def bufferSize_def
      mk_segment_def)

lemma demo_runs:
  "spec_runs
     [mk_segment 0 (2048 / 44100) 440, mk_segment (2048 / 44100) (4096 / 44100) 440,
      mk_segment (4096 / 44100) (6144 / 44100) 440, mk_segment (6144 / 44100) (8192 / 44100) 440,
      mk_segment (8192 / 44100) (10240 / 44100) 880, mk_segment (10240 / 44100) (12288 / 44100) 880,
      mk_segment (12288 / 44100) (14336 / 44100) 880, mk_segment (14336 / 44100) (16384 / 44100) 880] =
     [[mk_segment 0 (2048 / 44100) 440, mk_segment (2048 / 44100) (4096 / 44100) 440,
       mk_segment (4096 / 44100) (6144 / 44100) 440, mk_segment (6144 / 44100) (8192 / 44100) 440],
      [mk_segment (8192 / 44100) (10240 / 44100) 880, mk_segment (10240 / 44100) (12288 / 44100) 880,
       mk_segment (12288 / 44100) (14336 / 44100) 880, mk_segment (14336 / 44100) (16384 / 44100) 880]]"
  by (simp add: spec_runs_def continues_def mk_segment_def getMidi_440 getMidi_880)

lemma demo_event1:
  "processRun \<lparr>showSargam = False, rootKey = None\<rparr> []
     [mk_segment 0 (2048 / 44100) 440, mk_segment (2048 / 44100) (4096 / 44100) 440,
      mk_segment (4096 / 44100) (6144 / 44100) 440, mk_segment (6144 / 44100) (8192 / 44100) 440] =
     [\<lparr>startTime = 0, endTime = 8192 / 44100, avgFreq = 440, midi = JInt 69, label = ''A4'',
       fullNote = ''A4'', displayLabel = ''A4''\<rparr>]"
  by (simp add: processRun_def mk_segment_def getMidi_440 NOTES_def sargamLabel_def
      trunc_rem_def show_int_def show_nat.simps digit_char_def Let_def)

lemma demo_event2:
  "processRun \<lparr>showSargam = False, rootKey = None\<rparr> []
     [mk_segment (8192 / 44100) (10240 / 44100) 880, mk_segment (10240 / 44100) (12288 / 44100) 880,
      mk_segment (12288 / 44100) (14336 / 44100) 880, mk_segment (14336 / 44100) (16384 / 44100) 880] =
     [\<lparr>startTime = 8192 / 44100, endTime = 16384 / 44100, avgFreq = 880, midi = JInt 81,
       label = ''A5'', fullNote = ''A5'', displayLabel = ''A5''\<rparr>]"
  by (simp add: processRun_def mk_segment_def getMidi_880 NOTES_def sargamLabel_def
      trunc_rem_def show_int_def show_nat.simps digit_char_def Let_def)

lemma demo_events:
  "analyzePitch_stableNotes demo_YIN \<lparr>showSargam = False, rootKey = None\<rparr>
     \<lparr>sampleRate = 44100, channelData = replicate 8192 (1 / 2) @ replicate 8192 1\<rparr> =
     [\<lparr>startTime = 0, endTime = 8192 / 44100, avgFreq = 440, midi = JInt 69, label = ''A4'',
       fullNote = ''A4'', displayLabel = ''A4''\<rparr>,
      \<lparr>startTime = 8192 / 44100, endTime = 16384 / 44100, avgFreq = 880, midi = JInt 81,
       label = ''A5'', fullNote = ''A5'', displayLabel = ''A5''\<rparr>]"
  unfolding analyzePitch_stableNotes_def demo_segments stableNotes_spec_runs demo_runs
  by (simp only: list.map concat.simps demo_event1 demo_event2 append_Cons append_Nil)

text \<open>
  Four frames of 440 Hz followed at once by four frames of 880 Hz, at 44100 Hz: the two
  events share the instant 8192 / 44100 s, and both hold it.
\<close>

theorem one_match_counterexample:
  "filter (active_at (8192 / 44100))
     (analyzePitch_stableNotes demo_YIN \<lparr>showSargam = False, rootKey = None\<rparr>
        \<lparr>sampleRate = 44100, channelData = replicate 8192 (1 / 2) @ replicate 8192 1\<rparr>) =
     [\<lparr>startTime = 0, endTime = 8192 / 44100, avgFreq = 440, midi = JInt 69, label = ''A4'',
       fullNote = ''A4'', displayLabel = ''A4''\<rparr>,
      \<lparr>startTime = 8192 / 44100, endTime = 16384 / 44100, avgFreq = 880, midi = JInt 81,
       label = ''A5'', fullNote = ''A5'', displayLabel = ''A5''\<rparr>]"
  unfolding demo_events by (simp add: active_at_def)

text \<open>On the same buffer the lookup at the shared instant returns the first event.\<close>

theorem events_time_ordered_witness:
  "checkPitch
     (analyzePitch_stableNotes demo_YIN \<lparr>showSargam = False, rootKey = None\<rparr>
        \<lparr>sampleRate = 44100, channelData = replicate 8192 (1 / 2) @ replicate 8192 1\<rparr>)
     (8192 / 44100) =
     Some \<lparr>startTime = 0, endTime = 8192 / 44100, avgFreq = 440, midi = JInt 69, label = ''A4'',
       fullNote = ''A4'', displayLabel = ''A4''\<rparr>
   \<and> (8192 / 44100 :: real) \<le> 8192 / 44100"
proof -
  let ?b = "\<lparr>sampleRate = 44100, channelData = replicate 8192 (1 / 2) @ replicate 8192 1\<rparr>"
  let ?p = "\<lparr>showSargam = False, rootKey = None\<rparr>"
  let ?evs = "analyzePitch_stableNotes demo_YIN ?p ?b"
  have sr: "0 < sampleRate ?b" by simp
  have ev: "?evs = analyzePitch_stableNotes demo_YIN ?p ?b" by (rule refl)
  note eo = events_time_ordered [OF sr ev]
  have i: "0 < length ?evs \<and> startTime (?evs ! 0) < 8192 / 44100
           \<and> 8192 / 44100 \<le> endTime (?evs ! 0)"
    unfolding demo_events by simp
  have 1: "checkPitch ?evs (8192 / 44100) = Some (?evs ! 0)"
    using eo [THEN conjunct2, THEN conjunct2, THEN conjunct2, THEN spec, THEN spec, THEN mp, OF i] .
  have 2: "endTime (?evs ! 0) \<le> startTime (?evs ! 1)"
    using eo [THEN conjunct1] unfolding demo_events by simp
  show ?thesis using 1 2 unfolding demo_events by simp
qed

end
